theory Spec2Isabelle
  imports Complex_Main "HOL-Library.Char_ord" "HOL-Library.List_Lexorder" "HOL-Library.AList"
begin

section \<open>Data model (types.ts)\<close>

text \<open>
  A \<open>Node\<close> carries an identifier and presentation fields; the analytics read only the
  identifier. A \<open>Link\<close> joins two identifiers. Identifiers are JavaScript strings, compared
  by code unit: \<open>string\<close> with the lexicographic order of \<open>List_Lexorder\<close> on \<open>Char_ord\<close>.
  JavaScript numbers are modelled as \<open>nat\<close> or \<open>int\<close> where the source only counts, and
  as \<open>real\<close> where it divides or takes logarithms. A double operation is the exact
  operation followed by a rounding: where the outcome of a comparison can depend on it, in
  Louvain and in Girvan-Newman, the model takes the rounding as a parameter \<open>rnd\<close>, applied
  to the result of each sum, difference, product and quotient, and \<open>\<lambda>x. x\<close> is exact
  arithmetic; elsewhere the arithmetic is exact. Overflow to \<open>Infinity\<close> is not modelled.
\<close>

record Node =
  id' :: string

record Link =
  source :: string
  target :: string

record GraphData =
  nodes :: "Node list"
  links :: "Link list"

record CommunityAssignment =
  node :: string
  community :: nat

record LinkPredictionResult =
  lp_source :: string
  lp_target :: string
  lp_score :: real

record CentralityResult =
  nodeId :: string
  score :: real

datatype Algorithm = LOUVAIN | GIRVAN_NEWMAN | LABEL_PROPAGATION

datatype CentralityAlgorithm =
  IN_DEGREE | OUT_DEGREE | CLOSENESS | BETWEENNESS | PAGERANK | HITS_AUTHORITY | HITS_HUB

datatype LinkPredictionAlgorithm =
  COMMON_NEIGHBORS | JACCARD | ADAMIC_ADAR | PREFERENTIAL_ATTACHMENT

text \<open>
  At run time an algorithm selector is a string: one of the enumeration's members, or any
  other string, which only the \<open>default\<close> branch of a \<open>switch\<close> matches.
\<close>

datatype 'a selector = Member 'a | Other string

text \<open>What a call can throw.\<close>

datatype error =
  UnknownLinkPrediction string
  | UnknownAlgorithm string
  | TooManyNodes
  | TypeError

subsection \<open>JavaScript \<open>Map\<close> and \<open>Set\<close>\<close>

text \<open>
  A \<open>Map\<close> iterates in the order its keys were first inserted, and \<open>set\<close> on a present key
  keeps the key's place: an association list under \<open>AList.update\<close>, read with \<open>map_of\<close>.
  A \<open>Set\<close> is a duplicate-free list in insertion order.
\<close>

definition has :: "('k \<times> 'v) list \<Rightarrow> 'k \<Rightarrow> bool" where
  "has m k = (map_of m k \<noteq> None)"

definition getOr :: "'v \<Rightarrow> ('k \<times> 'v) list \<Rightarrow> 'k \<Rightarrow> 'v" where
  "getOr d m k = (case map_of m k of None \<Rightarrow> d | Some v \<Rightarrow> v)"

definition add :: "'a \<Rightarrow> 'a list \<Rightarrow> 'a list" where
  "add x s = (if x \<in> set s then s else s @ [x])"

definition newSet :: "'a list \<Rightarrow> 'a list" where
  "newSet xs = fold add xs []"

section \<open>Link prediction (linkPrediction.ts)\<close>

record PredictionGraph =
  pg_nodes :: "string list"
  pg_adj :: "(string \<times> string list) list"
  pg_degrees :: "(string \<times> nat) list"
  existingLinks :: "string list"

definition linkKey :: "string \<Rightarrow> string \<Rightarrow> string" where
  "linkKey a b = a @ ''|'' @ b"

definition pg_addLink :: "Link \<Rightarrow> PredictionGraph \<Rightarrow> PredictionGraph" where
  "pg_addLink link g =
     (let sourceId = source link; targetId = target link in
      if has (pg_adj g) sourceId \<and> has (pg_adj g) targetId then
        let adj1 = AList.update sourceId (add targetId (getOr [] (pg_adj g) sourceId)) (pg_adj g);
            adj2 = AList.update targetId (add sourceId (getOr [] adj1 targetId)) adj1;
            deg1 = AList.update sourceId (getOr 0 (pg_degrees g) sourceId + 1) (pg_degrees g);
            deg2 = AList.update targetId (getOr 0 deg1 targetId + 1) deg1;
            key = (if sourceId < targetId then linkKey sourceId targetId
                   else linkKey targetId sourceId)
        in g\<lparr>pg_adj := adj2, pg_degrees := deg2, existingLinks := add key (existingLinks g)\<rparr>
      else g)"

definition buildPredictionGraph :: "GraphData \<Rightarrow> PredictionGraph" where
  "buildPredictionGraph graphData =
     (let ns = map id' (nodes graphData);
          g0 = \<lparr>pg_nodes = ns,
                pg_adj = fold (\<lambda>nodeId. AList.update nodeId []) ns [],
                pg_degrees = fold (\<lambda>nodeId. AList.update nodeId 0) ns [],
                existingLinks = []\<rparr>
      in fold pg_addLink (links graphData) g0)"

text \<open>The generator \<open>getCandidateLinks\<close>, as the list of the pairs it yields, in order.\<close>

definition getCandidateLinks :: "PredictionGraph \<Rightarrow> (string \<times> string) list" where
  "getCandidateLinks graph =
     concat (map (\<lambda>i.
       concat (map (\<lambda>j.
         let u = pg_nodes graph ! i; v = pg_nodes graph ! j; key = linkKey u v in
         if key \<notin> set (existingLinks graph) then [(u, v)] else [])
       [i + 1 ..< length (pg_nodes graph)]))
     [0 ..< length (pg_nodes graph)])"

definition intersection :: "PredictionGraph \<Rightarrow> string \<Rightarrow> string \<Rightarrow> string list" where
  "intersection graph u v =
     filter (\<lambda>n. n \<in> set (getOr [] (pg_adj graph) v)) (getOr [] (pg_adj graph) u)"

definition calculateCommonNeighbors :: "PredictionGraph \<Rightarrow> LinkPredictionResult list" where
  "calculateCommonNeighbors graph =
     concat (map (\<lambda>(u, v).
       let size = length (intersection graph u v) in
       if size > 0 then [\<lparr>lp_source = u, lp_target = v, lp_score = real size\<rparr>] else [])
     (getCandidateLinks graph))"

definition calculateJaccard :: "PredictionGraph \<Rightarrow> LinkPredictionResult list" where
  "calculateJaccard graph =
     concat (map (\<lambda>(u, v).
       let isize = length (intersection graph u v);
           union = newSet (getOr [] (pg_adj graph) u @ getOr [] (pg_adj graph) v) in
       if length union > 0
       then [\<lparr>lp_source = u, lp_target = v, lp_score = real isize / real (length union)\<rparr>]
       else [])
     (getCandidateLinks graph))"

definition calculateAdamicAdar :: "PredictionGraph \<Rightarrow> LinkPredictionResult list" where
  "calculateAdamicAdar graph =
     concat (map (\<lambda>(u, v).
       let commonNeighbors = intersection graph u v;
           sc = fold (\<lambda>w s. let degreeW = getOr 0 (pg_degrees graph) w in
                             if degreeW > 1 then s + 1 / ln (real degreeW) else s)
                     commonNeighbors 0 in
       if sc > 0 then [\<lparr>lp_source = u, lp_target = v, lp_score = sc\<rparr>] else [])
     (getCandidateLinks graph))"

definition calculatePreferentialAttachment :: "PredictionGraph \<Rightarrow> LinkPredictionResult list" where
  "calculatePreferentialAttachment graph =
     concat (map (\<lambda>(u, v).
       let degreeU = getOr 0 (pg_degrees graph) u;
           degreeV = getOr 0 (pg_degrees graph) v;
           sc = degreeU * degreeV in
       if sc > 0 then [\<lparr>lp_source = u, lp_target = v, lp_score = real sc\<rparr>] else [])
     (getCandidateLinks graph))"

definition calculateLinkPrediction ::
  "GraphData \<Rightarrow> LinkPredictionAlgorithm selector \<Rightarrow> error + LinkPredictionResult list" where
  "calculateLinkPrediction graphData algorithm =
     (if length (nodes graphData) < 2 then Inr []
      else let graph = buildPredictionGraph graphData in
        case algorithm of
          Member COMMON_NEIGHBORS \<Rightarrow> Inr (calculateCommonNeighbors graph)
        | Member JACCARD \<Rightarrow> Inr (calculateJaccard graph)
        | Member ADAMIC_ADAR \<Rightarrow> Inr (calculateAdamicAdar graph)
        | Member PREFERENTIAL_ATTACHMENT \<Rightarrow> Inr (calculatePreferentialAttachment graph)
        | Other s \<Rightarrow> Inl (UnknownLinkPrediction s))"

section \<open>The community-detection worker (communityDetection.worker.ts)\<close>

subsection \<open>The \<open>Graph\<close> helper class\<close>

record Graph =
  g_nodes :: "string list"
  g_edges :: "Link list"
  g_adj :: "(string \<times> string list) list"
  g_degrees :: "(string \<times> nat) list"
  g_m :: nat

definition push :: "'k \<Rightarrow> 'a \<Rightarrow> ('k \<times> 'a list) list \<Rightarrow> ('k \<times> 'a list) list" where
  "push k x m = AList.update k (getOr [] m k @ [x]) m"

definition incr :: "'k \<Rightarrow> ('k \<times> nat) list \<Rightarrow> ('k \<times> nat) list" where
  "incr k m = AList.update k (getOr 0 m k + 1) m"

definition graph_addEdge ::
  "string list \<Rightarrow> Link \<Rightarrow> (string \<times> string list) list \<times> (string \<times> nat) list
   \<Rightarrow> (string \<times> string list) list \<times> (string \<times> nat) list" where
  "graph_addEdge ns edge = (\<lambda>(adj, degrees).
     if source edge \<in> set ns \<and> target edge \<in> set ns then
       (push (target edge) (source edge) (push (source edge) (target edge) adj),
        incr (target edge) (incr (source edge) degrees))
     else (adj, degrees))"

definition newGraph :: "GraphData \<Rightarrow> Graph" where
  "newGraph graphData =
     (let ns = newSet (map id' (nodes graphData));
          es = links graphData;
          adj0 = fold (\<lambda>n. AList.update n []) ns [];
          degrees0 = fold (\<lambda>n. AList.update n 0) ns [];
          (adj, degrees) = fold (graph_addEdge ns) es (adj0, degrees0)
      in \<lparr>g_nodes = ns, g_edges = es, g_adj = adj, g_degrees = degrees, g_m = length es\<rparr>)"

subsection \<open>Label propagation, the deterministic variant\<close>

type_synonym communities = "(string \<times> string) list"

definition maxIterations :: nat where
  "maxIterations = 20"

definition labelCounts :: "communities \<Rightarrow> string list \<Rightarrow> (string \<times> nat) list" where
  "labelCounts communities neighbors =
     fold (\<lambda>neighbor. incr (getOr [] communities neighbor)) neighbors []"

definition bestLabels :: "(string \<times> nat) list \<Rightarrow> nat \<times> string list" where
  "bestLabels counts =
     fold (\<lambda>(label, count) (maxCount, best).
             if count > maxCount then (count, [label])
             else if count = maxCount then (maxCount, best @ [label])
             else (maxCount, best))
          counts (0, [])"

text \<open>Tie-breaking: \<open>bestLabels.sort()[0]\<close>, the smallest of the most frequent labels.\<close>

definition newCommunity :: "communities \<Rightarrow> string list \<Rightarrow> string" where
  "newCommunity communities neighbors =
     hd (sort (snd (bestLabels (labelCounts communities neighbors))))"

definition lp_visit :: "Graph \<Rightarrow> string \<Rightarrow> communities \<times> bool \<Rightarrow> communities \<times> bool" where
  "lp_visit graph n = (\<lambda>(communities, changed).
     let neighbors = getOr [] (g_adj graph) n in
     if length neighbors = 0 then (communities, changed)
     else let c = newCommunity communities neighbors in
       if map_of communities n \<noteq> Some c then (AList.update n c communities, True)
       else (communities, changed))"

text \<open>One pass of the \<open>for\<close> loop over all nodes, started with \<open>changed = false\<close>.\<close>

definition lp_pass :: "Graph \<Rightarrow> string list \<Rightarrow> communities \<Rightarrow> communities \<times> bool" where
  "lp_pass graph nodeIds communities = fold (lp_visit graph) nodeIds (communities, False)"

text \<open>
  The \<open>while\<close> loop, from the labels, the flag \<open>changed\<close> and the counter \<open>iterations\<close>
  to their values when the loop is left: the counter is the number of passes run.
\<close>

function lp_while ::
  "Graph \<Rightarrow> string list \<Rightarrow> communities \<times> bool \<times> nat \<Rightarrow> communities \<times> bool \<times> nat" where
  "lp_while graph nodeIds (communities, changed, iterations) =
     (if changed \<and> iterations < maxIterations then
        (case lp_pass graph nodeIds communities of
           (communities', changed') \<Rightarrow>
             lp_while graph nodeIds (communities', changed', iterations + 1))
      else (communities, changed, iterations))"
  by pat_completeness auto
termination
  by (relation "measure (\<lambda>(graph, nodeIds, communities, changed, iterations).
                  maxIterations - iterations)") auto

declare lp_while.simps [simp del]

text \<open>Normalising labels to integers: the index of the label among the sorted labels in use.\<close>

definition lp_result :: "communities \<Rightarrow> CommunityAssignment list" where
  "lp_result communities =
     (let uniqueLabels = sort (newSet (map snd communities));
          labelMap = zip uniqueLabels [0 ..< length uniqueLabels]
      in map (\<lambda>(n, c). \<lparr>node = n, community = getOr 0 labelMap c\<rparr>) communities)"

definition runLabelPropagation :: "Graph \<Rightarrow> CommunityAssignment list" where
  "runLabelPropagation graph =
     (let nodeIds = sort (g_nodes graph);
          communities = fold (\<lambda>n. AList.update n n) nodeIds []
      in lp_result (fst (lp_while graph nodeIds (communities, True, 0))))"

text \<open>The labels after a number of passes, each started from the labels the one before left.\<close>

definition lp_passes :: "Graph \<Rightarrow> string list \<Rightarrow> nat \<Rightarrow> communities \<Rightarrow> communities" where
  "lp_passes graph nodeIds k communities =
     ((\<lambda>c. fst (lp_pass graph nodeIds c)) ^^ k) communities"

text \<open>The labels that no other label of the list outnumbers.\<close>

definition mostFrequent :: "'a list \<Rightarrow> 'a list" where
  "mostFrequent ls = filter (\<lambda>l. \<forall>l' \<in> set ls. count_list ls l' \<le> count_list ls l) ls"

text \<open>A star \<open>c \<midarrow> a \<midarrow> b\<close> and an isolated node \<open>z\<close>.\<close>

definition g3 :: Graph where
  "g3 = newGraph \<lparr>nodes = [\<lparr>id' = ''c''\<rparr>, \<lparr>id' = ''a''\<rparr>, \<lparr>id' = ''b''\<rparr>, \<lparr>id' = ''z''\<rparr>],
          links = [\<lparr>source = ''a'', target = ''c''\<rparr>, \<lparr>source = ''a'', target = ''b''\<rparr>]\<rparr>"

subsection \<open>Louvain, first variant\<close>

text \<open>
  \<open>Partition\<close>: the state of the part at one level. The constructor also fills a
  table \<open>k_i_in\<close> that nothing reads afterwards; it is left out.
\<close>

record Partition =
  nodeToCommunity :: "(string \<times> nat) list"
  communities :: "(nat \<times> string list) list"
  sigma_tot :: "(nat \<times> int) list"
  m2 :: nat

definition newPartition :: "string list \<Rightarrow> (string \<times> nat) list \<Rightarrow> nat \<Rightarrow> Partition" where
  "newPartition ns degrees m =
     fst (fold (\<lambda>n (p, communityId).
            (p\<lparr>nodeToCommunity := AList.update n communityId (nodeToCommunity p),
               communities := AList.update communityId [n] (communities p),
               sigma_tot := AList.update communityId (int (getOr 0 degrees n)) (sigma_tot p)\<rparr>,
             communityId + 1))
          ns (\<lparr>nodeToCommunity = [], communities = [], sigma_tot = [], m2 = 2 * m\<rparr>, 0))"

definition moveNode :: "Graph \<Rightarrow> string \<Rightarrow> nat \<Rightarrow> Partition \<Rightarrow> Partition" where
  "moveNode graph n newComm p =
     (let oldComm = getOr 0 (nodeToCommunity p) n;
          nodeDegree = int (getOr 0 (g_degrees graph) n);
          st1 = AList.update oldComm (getOr 0 (sigma_tot p) oldComm - nodeDegree) (sigma_tot p);
          st2 = AList.update newComm (getOr 0 st1 newComm + nodeDegree) st1;
          cs1 = AList.update oldComm (removeAll n (getOr [] (communities p) oldComm)) (communities p);
          cs2 = (if length (getOr [] cs1 oldComm) = 0 then AList.delete oldComm cs1 else cs1);
          cs3 = AList.update newComm (add n (getOr [] cs2 newComm)) cs2
      in p\<lparr>sigma_tot := st2, communities := cs3,
            nodeToCommunity := AList.update n newComm (nodeToCommunity p)\<rparr>)"

text \<open>Phase 1. The choice of the best community among those of the neighbours.\<close>

definition neighborCommunities :: "Partition \<Rightarrow> string list \<Rightarrow> (nat \<times> nat) list" where
  "neighborCommunities part neighbors =
     fold (\<lambda>neighbor. incr (getOr 0 (nodeToCommunity part) neighbor)) neighbors []"

definition bestCommunity :: "(real \<Rightarrow> real) \<Rightarrow> Graph \<Rightarrow> real \<Rightarrow> Partition \<Rightarrow> string \<Rightarrow> nat" where
  "bestCommunity rnd graph resolution part n =
     (let currentNodeCommunity = getOr 0 (nodeToCommunity part) n;
          neighbors = getOr [] (g_adj graph) n;
          nodeDegree = getOr 0 (g_degrees graph) n
      in fst (fold (\<lambda>(comm, k_i_in_val) (best, maxDeltaQ).
                let deltaQ =
                      rnd (real k_i_in_val
                           - rnd (rnd (resolution
                                       * rnd (real_of_int (getOr 0 (sigma_tot part) comm)
                                              * real nodeDegree))
                                  / real (m2 part)))
                in if deltaQ > maxDeltaQ then (comm, deltaQ) else (best, maxDeltaQ))
              (neighborCommunities part neighbors) (currentNodeCommunity, 0)))"

definition om_visit :: "(real \<Rightarrow> real) \<Rightarrow> Graph \<Rightarrow> real \<Rightarrow> string \<Rightarrow> Partition \<times> bool \<Rightarrow> Partition \<times> bool" where
  "om_visit rnd graph resolution n = (\<lambda>(part, improvement).
     let best = bestCommunity rnd graph resolution part n in
     if best \<noteq> getOr 0 (nodeToCommunity part) n
     then (moveNode graph n best part, True)
     else (part, improvement))"

definition om_pass :: "(real \<Rightarrow> real) \<Rightarrow> Graph \<Rightarrow> real \<Rightarrow> Partition \<Rightarrow> Partition \<times> bool" where
  "om_pass rnd graph resolution part =
     fold (om_visit rnd graph resolution) (sort (g_nodes graph)) (part, False)"

text \<open>
  The loop \<open>while (improvement)\<close> has no bound on its passes: the model returns \<open>None\<close> where
  it runs forever.
\<close>

partial_function (option) optimizeModularity :: "(real \<Rightarrow> real) \<Rightarrow> Graph \<Rightarrow> real \<Rightarrow> Partition \<Rightarrow> Partition option" where
  "optimizeModularity rnd graph resolution part =
     (case om_pass rnd graph resolution part of
        (part', improvement) \<Rightarrow>
          if improvement then optimizeModularity rnd graph resolution part'
          else Some part')"

text \<open>Phase 2. \<open>toString\<close> of a non-negative integer, and \<open>key.split('|')\<close>.\<close>

definition digit :: "nat \<Rightarrow> char" where
  "digit d = ''0123456789'' ! d"

function toString :: "nat \<Rightarrow> string" where
  "toString n = (if n < 10 then [digit n] else toString (n div 10) @ [digit (n mod 10)])"
  by pat_completeness auto
termination
  by (relation "measure id") auto

declare toString.simps [simp del]

definition splitKey :: "string \<Rightarrow> string \<times> string" where
  "splitKey key =
     (takeWhile (\<lambda>ch. ch \<noteq> CHR ''|'') key,
      takeWhile (\<lambda>ch. ch \<noteq> CHR ''|'') (drop 1 (dropWhile (\<lambda>ch. ch \<noteq> CHR ''|'') key)))"

text \<open>
  A community that a lookup does not find is \<open>undefined\<close>: it compares less than nothing,
  and a template string prints it as \<open>undefined\<close>.
\<close>

definition jsLess :: "string option \<Rightarrow> string option \<Rightarrow> bool" where
  "jsLess a b = (case (a, b) of (Some x, Some y) \<Rightarrow> x < y | _ \<Rightarrow> False)"

definition str :: "string option \<Rightarrow> string" where
  "str a = (case a of None \<Rightarrow> ''undefined'' | Some x \<Rightarrow> x)"

definition communityMap :: "Partition \<Rightarrow> (nat \<times> string) list" where
  "communityMap part =
     fst (fold (\<lambda>commId (cm, counter). (AList.update commId (toString counter) cm, counter + 1))
            (map fst (communities part)) ([], 0))"

definition newComm :: "Partition \<Rightarrow> nat option \<Rightarrow> string option" where
  "newComm part comm =
     (case comm of None \<Rightarrow> None | Some c \<Rightarrow> map_of (communityMap part) c)"

definition edgeKey :: "Partition \<Rightarrow> Link \<Rightarrow> string" where
  "edgeKey part edge =
     (let newComm1 = newComm part (map_of (nodeToCommunity part) (source edge));
          newComm2 = newComm part (map_of (nodeToCommunity part) (target edge))
      in if jsLess newComm1 newComm2 then linkKey (str newComm1) (str newComm2)
         else linkKey (str newComm2) (str newComm1))"

definition communityWeights :: "Graph \<Rightarrow> Partition \<Rightarrow> (string \<times> nat) list" where
  "communityWeights graph part =
     fold (\<lambda>edge cw.
            if map_of (nodeToCommunity part) (source edge)
                 \<noteq> map_of (nodeToCommunity part) (target edge)
            then incr (edgeKey part edge) cw else cw)
          (g_edges graph) []"

definition aggregateCommunities :: "Graph \<Rightarrow> Partition \<Rightarrow> GraphData" where
  "aggregateCommunities graph part =
     (let newNodes = newSet (map snd (communityMap part));
          newLinks = concat (map (\<lambda>(key, weight).
                        replicate weight \<lparr>source = fst (splitKey key), target = snd (splitKey key)\<rparr>)
                      (communityWeights graph part))
      in \<lparr>nodes = map (\<lambda>i. \<lparr>id' = i\<rparr>) newNodes, links = newLinks\<rparr>)"

text \<open>The main loop, which collects the \<open>nodeToCommunity\<close> table of every level.\<close>

partial_function (option) louvain_loop ::
  "(real \<Rightarrow> real) \<Rightarrow> Graph \<Rightarrow> real \<Rightarrow> Partition \<Rightarrow> (string \<times> nat) list list \<Rightarrow> (string \<times> nat) list list option" where
  "louvain_loop rnd graph resolution currentPartition communityHierarchy =
     Option.bind (optimizeModularity rnd graph resolution currentPartition) (\<lambda>p.
       let hierarchy = communityHierarchy @ [nodeToCommunity p] in
       if length (communities p) = length (g_nodes graph) then Some hierarchy
       else let newGraphData = aggregateCommunities graph p in
         if length (links newGraphData) = 0 then Some hierarchy
         else let g = newGraph newGraphData in
           louvain_loop rnd g resolution (newPartition (g_nodes g) (g_degrees g) (g_m g)) hierarchy)"

text \<open>Mapping the communities back to the original nodes, level by level.\<close>

definition mapLevel :: "(string \<times> nat) list \<Rightarrow> (string \<times> nat) list \<Rightarrow> (string \<times> nat) list" where
  "mapLevel levelPartition finalPartition =
     fold (\<lambda>(n, c) newFinalPartition.
            case map_of levelPartition (toString c) of
              None \<Rightarrow> newFinalPartition
            | Some mappedComm \<Rightarrow> AList.update n mappedComm newFinalPartition)
          finalPartition []"

definition renumber :: "(string \<times> nat) list \<Rightarrow> CommunityAssignment list" where
  "renumber finalPartition =
     (let uniqueLabels = sort (newSet (map snd finalPartition));
          labelMap = zip uniqueLabels [0 ..< length uniqueLabels]
      in map (\<lambda>(n, c). \<lparr>node = n, community = getOr 0 labelMap c\<rparr>) finalPartition)"

definition finalPartition :: "(string \<times> nat) list list \<Rightarrow> (string \<times> nat) list" where
  "finalPartition communityHierarchy =
     fold mapLevel (tl communityHierarchy)
       (fold (\<lambda>(n, c). AList.update n c) (hd communityHierarchy) [])"

definition runLouvain :: "(real \<Rightarrow> real) \<Rightarrow> Graph \<Rightarrow> real \<Rightarrow> CommunityAssignment list option" where
  "runLouvain rnd graph resolution =
     (if g_m graph = 0
      then Some (map (\<lambda>(n, i). \<lparr>node = n, community = i\<rparr>)
                   (zip (g_nodes graph) [0 ..< length (g_nodes graph)]))
      else map_option (\<lambda>h. renumber (finalPartition h))
             (louvain_loop rnd graph resolution
                (newPartition (g_nodes graph) (g_degrees graph) (g_m graph)) []))"

text \<open>The path \<open>a \<midarrow> b \<midarrow> c \<midarrow> d\<close>, as the edge list \<open>a b / b c / c d\<close> parses.\<close>

definition path4 :: GraphData where
  "path4 = \<lparr>nodes = [\<lparr>id' = ''a''\<rparr>, \<lparr>id' = ''b''\<rparr>, \<lparr>id' = ''c''\<rparr>, \<lparr>id' = ''d''\<rparr>],
            links = [\<lparr>source = ''a'', target = ''b''\<rparr>, \<lparr>source = ''b'', target = ''c''\<rparr>,
                     \<lparr>source = ''c'', target = ''d''\<rparr>]\<rparr>"

subsection \<open>Louvain, second variant: aggregation\<close>

text \<open>
  The second variant names an aggregated node by the community id itself and has no test
  \<open>comm1 !== comm2\<close>. \<open>comm1.toString()\<close> throws when the lookup found nothing.
\<close>

definition edgeKey_v2 :: "Partition \<Rightarrow> Link \<Rightarrow> error + string" where
  "edgeKey_v2 part edge =
     (case (map_of (nodeToCommunity part) (source edge), map_of (nodeToCommunity part) (target edge)) of
        (Some comm1, Some comm2) \<Rightarrow>
          Inr (if comm1 \<le> comm2 then linkKey (toString comm1) (toString comm2)
               else linkKey (toString comm2) (toString comm1))
      | _ \<Rightarrow> Inl TypeError)"

definition communityWeights_v2 :: "Graph \<Rightarrow> Partition \<Rightarrow> error + (string \<times> nat) list" where
  "communityWeights_v2 graph part =
     fold (\<lambda>edge acc. case acc of
             Inl e \<Rightarrow> Inl e
           | Inr cw \<Rightarrow> (case edgeKey_v2 part edge of
                         Inl e \<Rightarrow> Inl e
                       | Inr key \<Rightarrow> Inr (incr key cw)))
          (g_edges graph) (Inr [])"

definition aggregateCommunities_v2 :: "Graph \<Rightarrow> Partition \<Rightarrow> error + GraphData" where
  "aggregateCommunities_v2 graph part =
     (let communityIds = map fst (communities part);
          newNodes = map (\<lambda>i. \<lparr>id' = toString i\<rparr>) communityIds
      in case communityWeights_v2 graph part of
           Inl e \<Rightarrow> Inl e
         | Inr cw \<Rightarrow>
             Inr \<lparr>nodes = newNodes,
                  links = concat (map (\<lambda>(key, weight).
                            replicate weight \<lparr>source = fst (splitKey key), target = snd (splitKey key)\<rparr>)
                          cw)\<rparr>)"

subsection \<open>Louvain, second variant: the graph and Phase 1\<close>

definition graph_addEdge_v2 ::
  "string list \<Rightarrow> Link \<Rightarrow> (string \<times> string list) list \<times> (string \<times> nat) list \<times> nat
   \<Rightarrow> (string \<times> string list) list \<times> (string \<times> nat) list \<times> nat" where
  "graph_addEdge_v2 ns edge = (\<lambda>(adj, degrees, m).
     if source edge \<in> set ns \<and> target edge \<in> set ns then
       let adj1 = push (source edge) (target edge) adj;
           degrees1 = incr (source edge) degrees
       in if source edge \<noteq> target edge
          then (push (target edge) (source edge) adj1, incr (target edge) degrees1, m + 1)
          else (adj1, degrees1, m + 1)
     else (adj, degrees, m))"

definition newGraph_v2 :: "GraphData \<Rightarrow> Graph" where
  "newGraph_v2 graphData =
     (let ns = newSet (map id' (nodes graphData));
          es = links graphData;
          adj0 = fold (\<lambda>n. AList.update n []) ns [];
          degrees0 = fold (\<lambda>n. AList.update n 0) ns [];
          (adj, degrees, m) = fold (graph_addEdge_v2 ns) es (adj0, degrees0, 0)
      in \<lparr>g_nodes = ns, g_edges = es, g_adj = adj, g_degrees = degrees, g_m = m\<rparr>)"

definition bestCommunity_v2 :: "(real \<Rightarrow> real) \<Rightarrow> Graph \<Rightarrow> real \<Rightarrow> Partition \<Rightarrow> string \<Rightarrow> nat" where
  "bestCommunity_v2 rnd graph resolution part n =
     (let nodeDegree = real (getOr 0 (g_degrees graph) n);
          neighbors = getOr [] (g_adj graph) n;
          currentNodeCommunity = getOr 0 (nodeToCommunity part) n;
          nc = neighborCommunities part neighbors;
          k_i_in_current = real (getOr 0 nc currentNodeCommunity);
          sigma_tot_current = real_of_int (getOr 0 (sigma_tot part) currentNodeCommunity)
      in fst (fold (\<lambda>(targetComm, k_i_in_target) (best, maxGain).
                if targetComm = currentNodeCommunity then (best, maxGain)
                else
                  let sigma_tot_target = real_of_int (getOr 0 (sigma_tot part) targetComm);
                      gain_links = rnd (real k_i_in_target - k_i_in_current);
                      gain_degrees = rnd (rnd (rnd (resolution * nodeDegree) / real (m2 part))
                                          * rnd (rnd (sigma_tot_current - nodeDegree)
                                                 - sigma_tot_target));
                      net_gain = rnd (gain_links + gain_degrees)
                  in if net_gain > maxGain then (targetComm, net_gain) else (best, maxGain))
              nc (currentNodeCommunity, 0)))"

definition om_visit_v2 :: "(real \<Rightarrow> real) \<Rightarrow> Graph \<Rightarrow> real \<Rightarrow> string \<Rightarrow> Partition \<times> bool \<Rightarrow> Partition \<times> bool" where
  "om_visit_v2 rnd graph resolution n = (\<lambda>(part, improvement).
     let best = bestCommunity_v2 rnd graph resolution part n in
     if best \<noteq> getOr 0 (nodeToCommunity part) n
     then (moveNode graph n best part, True)
     else (part, improvement))"

function om_while_v2 :: "(real \<Rightarrow> real) \<Rightarrow> Graph \<Rightarrow> real \<Rightarrow> Partition \<times> bool \<times> nat \<Rightarrow> Partition" where
  "om_while_v2 rnd graph resolution (part, improvement, pass_count) =
     (if improvement \<and> pass_count < 100 then
        (case fold (om_visit_v2 rnd graph resolution) (sort (g_nodes graph)) (part, False) of
           (part', improvement') \<Rightarrow> om_while_v2 rnd graph resolution (part', improvement', pass_count + 1))
      else part)"
  by pat_completeness auto
termination
  by (relation "measure (\<lambda>(rnd, graph, resolution, part, improvement, pass_count). 100 - pass_count)") auto

declare om_while_v2.simps [simp del]

definition optimizeModularity_v2 :: "(real \<Rightarrow> real) \<Rightarrow> Graph \<Rightarrow> real \<Rightarrow> Partition \<Rightarrow> Partition" where
  "optimizeModularity_v2 rnd graph resolution part = om_while_v2 rnd graph resolution (part, True, 0)"

subsection \<open>Notions used to state the aggregation properties\<close>

text \<open>The community of a node, the link a key splits into, and a weighted count of keys.\<close>

definition comm :: "Partition \<Rightarrow> string \<Rightarrow> nat option" where
  "comm part x = map_of (nodeToCommunity part) x"

definition keyLink :: "string \<Rightarrow> Link" where
  "keyLink key = \<lparr>source = fst (splitKey key), target = snd (splitKey key)\<rparr>"

definition wsum :: "('k \<Rightarrow> bool) \<Rightarrow> ('k \<times> nat) list \<Rightarrow> nat" where
  "wsum Q cw = sum_list (map (\<lambda>(k, w). if Q k then w else 0) cw)"

text \<open>
  A partition is in order when its two tables have no repeated key, as tables of a \<open>Map\<close>
  have none, and every node is a member of the community that \<open>nodeToCommunity\<close> gives it.
\<close>

definition partition_ok :: "Partition \<Rightarrow> bool" where
  "partition_ok part =
     (distinct (map fst (communities part)) \<and> distinct (map fst (nodeToCommunity part))
      \<and> list_all (\<lambda>(n, c). n \<in> set (getOr [] (communities part) c)) (nodeToCommunity part))"

text \<open>The single edge \<open>a \<midarrow> b\<close>, and the partition Phase 1 of the second variant leaves on it.\<close>

definition edge_ab :: GraphData where
  "edge_ab = \<lparr>nodes = [\<lparr>id' = ''a''\<rparr>, \<lparr>id' = ''b''\<rparr>], links = [\<lparr>source = ''a'', target = ''b''\<rparr>]\<rparr>"

definition part_ab :: Partition where
  "part_ab = \<lparr>nodeToCommunity = [(''a'', 1), (''b'', 1)], communities = [(1, [''b'', ''a''])],
              sigma_tot = [(0, 0), (1, 2)], m2 = 2\<rparr>"

text \<open>The partition the first variant's Phase 1 leaves on the path of four nodes.\<close>

definition part_path4 :: Partition where
  "part_path4 = \<lparr>nodeToCommunity = [(''a'', 2), (''b'', 2), (''c'', 3), (''d'', 3)],
     communities = [(2, [''b'', ''a'']), (3, [''d'', ''c''])],
     sigma_tot = [(0, 0), (1, 0), (2, 3), (3, 3)], m2 = 6\<rparr>"

subsection \<open>Girvan-Newman, first variant\<close>

type_synonym adjacency = "(string \<times> string list) list"

definition sortedKey :: "string \<Rightarrow> string \<Rightarrow> string" where
  "sortedKey a b = (if a < b then linkKey a b else linkKey b a)"

text \<open>
  \<open>tempAdj.get(k)!.add(x)\<close> and \<open>tempAdj.get(k)!.delete(x)\<close> throw a \<open>TypeError\<close> when \<open>k\<close> is
  not a key of the table.
\<close>

definition addNeighbor :: "string \<Rightarrow> string \<Rightarrow> adjacency \<Rightarrow> error + adjacency" where
  "addNeighbor k x adj =
     (case map_of adj k of None \<Rightarrow> Inl TypeError
      | Some s \<Rightarrow> Inr (AList.update k (add x s) adj))"

definition deleteNeighbor :: "string \<Rightarrow> string \<Rightarrow> adjacency \<Rightarrow> error + adjacency" where
  "deleteNeighbor k x adj =
     (case map_of adj k of None \<Rightarrow> Inl TypeError
      | Some s \<Rightarrow> Inr (AList.update k (removeAll x s) adj))"

definition gn_addEdge :: "Link \<Rightarrow> error + adjacency \<Rightarrow> error + adjacency" where
  "gn_addEdge e acc =
     (case acc of Inl err \<Rightarrow> Inl err
      | Inr adj \<Rightarrow> (case addNeighbor (source e) (target e) adj of Inl err \<Rightarrow> Inl err
                    | Inr adj1 \<Rightarrow> addNeighbor (target e) (source e) adj1))"

definition newTempAdj :: "Graph \<Rightarrow> error + adjacency" where
  "newTempAdj graph =
     fold gn_addEdge (g_edges graph) (Inr (fold (\<lambda>n. AList.update n []) (g_nodes graph) []))"

text \<open>
  \<open>getComponents\<close>. The queue \<open>q\<close> with its index \<open>head\<close> is the list of the nodes already
  taken from it, which is the component, and the list of those still waiting.
\<close>

definition gc_scan :: "string list \<Rightarrow> string list \<times> string list \<Rightarrow> string list \<times> string list" where
  "gc_scan nbrs =
     fold (\<lambda>v (q, visited). if v \<notin> set visited then (q @ [v], visited @ [v]) else (q, visited)) nbrs"

definition allIds :: "adjacency \<Rightarrow> string set" where
  "allIds adj = (\<Union>(k, s) \<in> set adj. set s)"

lemma gc_scan_effect:
  "gc_scan nbrs (q, visited) = (q', visited') \<Longrightarrow>
   \<exists>new. q' = q @ new \<and> visited' = visited @ new \<and> distinct new
         \<and> set new \<subseteq> set nbrs \<and> set new \<inter> set visited = {}"
proof (induction nbrs arbitrary: q visited)
  case Nil
  then show ?case by (simp add: gc_scan_def)
next
  case (Cons v nbrs)
  show ?case
  proof (cases "v \<in> set visited")
    case True
    then have "gc_scan nbrs (q, visited) = (q', visited')"
      using Cons.prems by (simp add: gc_scan_def)
    from Cons.IH[OF this] show ?thesis by auto
  next
    case False
    then have "gc_scan nbrs (q @ [v], visited @ [v]) = (q', visited')"
      using Cons.prems by (simp add: gc_scan_def)
    from Cons.IH[OF this] obtain new where
      n: "q' = (q @ [v]) @ new" "visited' = (visited @ [v]) @ new" "distinct new"
         "set new \<subseteq> set nbrs" "set new \<inter> set (visited @ [v]) = {}"
      by blast
    have "q' = q @ (v # new) \<and> visited' = visited @ (v # new) \<and> distinct (v # new)
         \<and> set (v # new) \<subseteq> set (v # nbrs) \<and> set (v # new) \<inter> set visited = {}"
      using n False by auto
    then show ?thesis by blast
  qed
qed

lemma getOr_allIds: "set (getOr [] adj u) \<subseteq> allIds adj"
proof (cases "map_of adj u")
  case None
  then show ?thesis by (simp add: getOr_def)
next
  case (Some s)
  then have "(u, s) \<in> set adj" by (rule map_of_SomeD)
  then show ?thesis using Some by (auto simp: getOr_def allIds_def)
qed

lemma finite_allIds: "finite (allIds adj)"
  by (simp add: allIds_def split_beta)

function gc_bfs :: "adjacency \<Rightarrow> string list \<Rightarrow> string list \<Rightarrow> string list \<Rightarrow> string list \<times> string list" where
  "gc_bfs adj [] visited component = (component, visited)"
| "gc_bfs adj (u # rest) visited component =
     (case gc_scan (getOr [] adj u) (rest, visited) of
        (q, visited') \<Rightarrow> gc_bfs adj q visited' (component @ [u]))"
  by pat_completeness auto
termination
proof (relation "measure (\<lambda>(adj, q, visited, component).
                   2 * card (allIds adj - set visited) + length q)", goal_cases)
  case 1
  show ?case by simp
next
  case (2 adj u rest visited component q visited')
  then have "gc_scan (getOr [] adj u) (rest, visited) = (q, visited')" by simp
  from gc_scan_effect[OF this] obtain new where
    n: "q = rest @ new" "visited' = visited @ new" "distinct new"
       "set new \<subseteq> set (getOr [] adj u)" "set new \<inter> set visited = {}"
    by blast
  have sub: "set new \<subseteq> allIds adj - set visited"
    using n(4,5) getOr_allIds[of adj u] by auto
  have "allIds adj - set visited' = (allIds adj - set visited) - set new"
    using n(2) by auto
  then have "card (allIds adj - set visited') = card (allIds adj - set visited) - card (set new)"
    using sub finite_allIds[of adj] by (simp add: card_Diff_subset finite_subset)
  moreover have "card (set new) = length new" using n(3) by (simp add: distinct_card)
  moreover have "length new \<le> card (allIds adj - set visited)"
    using sub finite_allIds[of adj] n(3) by (metis card_mono distinct_card finite_Diff)
  ultimately show ?case
    using n(1) by simp
qed

definition gc_visit ::
  "adjacency \<Rightarrow> string \<Rightarrow> string list list \<times> string list \<Rightarrow> string list list \<times> string list" where
  "gc_visit adj n = (\<lambda>(components, visited).
     if n \<notin> set visited then
       (case gc_bfs adj [n] (visited @ [n]) [] of
          (component, visited') \<Rightarrow> (components @ [component], visited'))
     else (components, visited))"

definition getComponents :: "Graph \<Rightarrow> adjacency \<Rightarrow> string list list" where
  "getComponents graph tempAdj = fst (fold (gc_visit tempAdj) (g_nodes graph) ([], []))"

text \<open>
  Edge betweenness: Brandes' search from one source. The distance table \<open>d\<close> holds \<open>None\<close>
  for the source's \<open>-1\<close> (not reached) and \<open>Some k\<close> for the distance \<open>k\<close>.
\<close>

type_synonym dist = "(string \<times> nat option) list"

definition dplus1 :: "dist \<Rightarrow> string \<Rightarrow> nat" where
  "dplus1 d v = (case map_of d v of Some (Some k) \<Rightarrow> k + 1 | _ \<Rightarrow> 0)"

definition relax ::
  "(real \<Rightarrow> real) \<Rightarrow> string \<Rightarrow> string
   \<Rightarrow> string list \<times> dist \<times> (string \<times> real) list \<times> adjacency
   \<Rightarrow> string list \<times> dist \<times> (string \<times> real) list \<times> adjacency" where
  "relax rnd v w = (\<lambda>(Q, d, sigma, P).
     case map_of d w of
       None \<Rightarrow> (Q, d, sigma, P)
     | Some dw \<Rightarrow>
         let (Q1, d1) = (if dw = None then (Q @ [w], AList.update w (Some (dplus1 d v)) d)
                         else (Q, d))
         in if map_of d1 w = Some (Some (dplus1 d1 v))
            then (Q1, d1, AList.update w (rnd (getOr 0 sigma w + getOr 0 sigma v)) sigma, push w v P)
            else (Q1, d1, sigma, P))"

definition unreached :: "dist \<Rightarrow> nat" where
  "unreached d = length (filter (\<lambda>(k, x). x = None) d)"

lemma unreached_update:
  "map_of d w = Some None \<Longrightarrow> Suc (unreached (AList.update w (Some k) d)) = unreached d"
proof (induction d)
  case Nil
  then show ?case by simp
next
  case (Cons a d)
  obtain k' x where a: "a = (k', x)" by (cases a)
  show ?case
  proof (cases "k' = w")
    case True
    then show ?thesis using Cons.prems a by (simp add: unreached_def)
  next
    case False
    then have "map_of d w = Some None" using Cons.prems a by simp
    from Cons.IH[OF this] show ?thesis using False a by (simp add: unreached_def)
  qed
qed

lemma relax_measure:
  "relax rnd v w (Q, d, sigma, P) = (Q', d', sigma', P') \<Longrightarrow>
   length Q' + unreached d' = length Q + unreached d"
proof (cases "map_of d w")
  case None
  assume "relax rnd v w (Q, d, sigma, P) = (Q', d', sigma', P')"
  then show ?thesis using None by (simp add: relax_def)
next
  case (Some dw)
  assume r: "relax rnd v w (Q, d, sigma, P) = (Q', d', sigma', P')"
  show ?thesis
  proof (cases dw)
    case None
    then have "Q' = Q @ [w]" "d' = AList.update w (Some (dplus1 d v)) d"
      using r Some by (auto simp: relax_def Let_def split: if_splits)
    then show ?thesis using unreached_update[of d w "dplus1 d v"] Some None by simp
  next
    case (Some k)
    then have "Q' = Q" "d' = d"
      using r \<open>map_of d w = Some dw\<close> by (auto simp: relax_def Let_def split: if_splits)
    then show ?thesis by simp
  qed
qed

lemma relax_fold_measure:
  "fold (relax rnd v) ws (Q, d, sigma, P) = (Q', d', sigma', P') \<Longrightarrow>
   length Q' + unreached d' = length Q + unreached d"
proof (induction ws arbitrary: Q d sigma P)
  case Nil
  then show ?case by simp
next
  case (Cons w ws)
  obtain Q1 d1 s1 P1 where 1: "relax rnd v w (Q, d, sigma, P) = (Q1, d1, s1, P1)"
    by (cases "relax rnd v w (Q, d, sigma, P)") auto
  then have "fold (relax rnd v) ws (Q1, d1, s1, P1) = (Q', d', sigma', P')"
    using Cons.prems by simp
  from Cons.IH[OF this] relax_measure[OF 1] show ?case by simp
qed

function brandes_bfs ::
  "(real \<Rightarrow> real) \<Rightarrow> adjacency \<Rightarrow> string list \<Rightarrow> string list \<times> dist \<times> (string \<times> real) list \<times> adjacency
   \<Rightarrow> string list \<times> (string \<times> real) list \<times> adjacency" where
  "brandes_bfs rnd adj [] (S, d, sigma, P) = (S, sigma, P)"
| "brandes_bfs rnd adj (v # rest) (S, d, sigma, P) =
     (case fold (relax rnd v) (getOr [] adj v) (rest, d, sigma, P) of
        (Q, d', sigma', P') \<Rightarrow> brandes_bfs rnd adj Q (S @ [v], d', sigma', P'))"
  by pat_completeness auto
termination
proof (relation "measure (\<lambda>(rnd, adj, Q, S, d, sigma, P). length Q + unreached d)", goal_cases)
  case 1
  show ?case by simp
next
  case (2 rnd adj v rest S d sigma P Q y d' z sigma' P')
  then have "fold (relax rnd v) (getOr [] adj v) (rest, d, sigma, P) = (Q, d', sigma', P')"
    by simp
  from relax_fold_measure[OF this] show ?case by simp
qed

definition credit ::
  "(real \<Rightarrow> real) \<Rightarrow> (string \<times> real) list \<Rightarrow> string \<Rightarrow> string
   \<Rightarrow> (string \<times> real) list \<times> (string \<times> real) list
   \<Rightarrow> (string \<times> real) list \<times> (string \<times> real) list" where
  "credit rnd sigma w v = (\<lambda>(betweenness, delta).
     let c = rnd (rnd (getOr 0 sigma v / getOr 0 sigma w) * rnd (1 + getOr 0 delta w));
         edgeKey = sortedKey v w
     in (AList.update edgeKey (rnd (getOr 0 betweenness edgeKey + c)) betweenness,
         AList.update v (rnd (getOr 0 delta v + c)) delta))"

definition accumulate ::
  "(real \<Rightarrow> real) \<Rightarrow> string list \<Rightarrow> adjacency \<Rightarrow> string \<Rightarrow> (string \<times> real) list \<Rightarrow> (string \<times> real) list" where
  "accumulate rnd ns adj s betweenness =
     (case brandes_bfs rnd adj [s]
             ([], AList.update s (Some 0) (fold (\<lambda>n. AList.update n None) ns []),
              AList.update s 1 (fold (\<lambda>n. AList.update n 0) ns []),
              fold (\<lambda>n. AList.update n []) ns []) of
        (S, sigma, P) \<Rightarrow>
          fst (fold (\<lambda>w. fold (credit rnd sigma w) (getOr [] P w)) (rev S)
                 (betweenness, fold (\<lambda>n. AList.update n 0) ns [])))"

definition edgeBetweenness ::
  "(real \<Rightarrow> real) \<Rightarrow> Graph \<Rightarrow> adjacency \<Rightarrow> string list \<Rightarrow> (string \<times> real) list" where
  "edgeBetweenness rnd graph tempAdj currentEdges =
     fold (accumulate rnd (g_nodes graph) tempAdj) (g_nodes graph)
       (fold (\<lambda>e. AList.update e 0) currentEdges [])"

text \<open>The edge to remove: the loop keeps the first entry whose value exceeds all before it.\<close>

definition selectEdge :: "(string \<times> real) list \<Rightarrow> string" where
  "selectEdge betweenness =
     snd (fold (\<lambda>(edge, val) (maxBetweenness, edgeToRemove).
                  if val > maxBetweenness then (val, edge) else (maxBetweenness, edgeToRemove))
            betweenness (-1, ''''))"

record gn_state =
  tempAdj :: adjacency
  currentEdges :: "string list"
  numComponents :: nat

definition removeEdge :: "string \<Rightarrow> gn_state \<Rightarrow> error + gn_state" where
  "removeEdge edgeToRemove st =
     (case splitKey edgeToRemove of (u, v) \<Rightarrow>
        (case deleteNeighbor u v (tempAdj st) of Inl err \<Rightarrow> Inl err
         | Inr a1 \<Rightarrow> (case deleteNeighbor v u a1 of Inl err \<Rightarrow> Inl err
                      | Inr a2 \<Rightarrow> Inr (st\<lparr>currentEdges := removeAll edgeToRemove (currentEdges st),
                                           tempAdj := a2\<rparr>))))"

text \<open>
  The main loop. Nothing bounds it when an identifier contains the separator \<open>|\<close>, so the
  model returns \<open>None\<close> where it runs forever.
\<close>

partial_function (option) gn_while ::
  "(real \<Rightarrow> real) \<Rightarrow> Graph \<Rightarrow> int \<Rightarrow> gn_state \<Rightarrow> (error + gn_state) option" where
  "gn_while rnd graph targetCommunities st =
     (if int (numComponents st) < targetCommunities \<and> length (currentEdges st) > 0 then
        let edgeToRemove = selectEdge (edgeBetweenness rnd graph (tempAdj st) (currentEdges st)) in
        if edgeToRemove = [] then Some (Inr st)
        else (case removeEdge edgeToRemove st of
                Inl err \<Rightarrow> Some (Inl err)
              | Inr st' \<Rightarrow>
                  gn_while rnd graph targetCommunities
                    (st'\<lparr>numComponents := length (getComponents graph (tempAdj st'))\<rparr>))
      else Some (Inr st))"

definition gn_result :: "string list list \<Rightarrow> CommunityAssignment list" where
  "gn_result finalComponents =
     concat (map (\<lambda>(component, i). map (\<lambda>n. \<lparr>node = n, community = i\<rparr>) component)
               (zip finalComponents [0 ..< length finalComponents]))"

definition gn_init :: "Graph \<Rightarrow> adjacency \<Rightarrow> gn_state" where
  "gn_init graph adj =
     \<lparr>tempAdj = adj,
      currentEdges = newSet (map (\<lambda>e. sortedKey (source e) (target e)) (g_edges graph)),
      numComponents = length (getComponents graph adj)\<rparr>"

definition runGirvanNewman ::
  "(real \<Rightarrow> real) \<Rightarrow> Graph \<Rightarrow> int \<Rightarrow> (error + CommunityAssignment list) option" where
  "runGirvanNewman rnd graph targetCommunities =
     (case newTempAdj graph of
        Inl err \<Rightarrow> Some (Inl err)
      | Inr adj \<Rightarrow>
          (case gn_while rnd graph targetCommunities (gn_init graph adj) of
             None \<Rightarrow> None
           | Some (Inl err) \<Rightarrow> Some (Inl err)
           | Some (Inr st) \<Rightarrow> Some (Inr (gn_result (getComponents graph (tempAdj st))))))"

declare gn_while.simps [code]





definition two_edges :: GraphData where
  "two_edges = \<lparr>nodes = [\<lparr>id' = ''c''\<rparr>, \<lparr>id' = ''d''\<rparr>, \<lparr>id' = ''a''\<rparr>, \<lparr>id' = ''b''\<rparr>],
                links = [\<lparr>source = ''c'', target = ''d''\<rparr>, \<lparr>source = ''a'', target = ''b''\<rparr>]\<rparr>"

definition two_adj :: adjacency where
  "two_adj = [(''c'', [''d'']), (''d'', [''c'']), (''a'', [''b'']), (''b'', [''a''])]"

text \<open>
  Notions used to state what the components are: the symmetric relation of the links, the
  nodes it connects, the components of a graph, a graph all of whose links join listed nodes,
  and the invariants of the two loops of \<open>getComponents\<close>.
\<close>

definition linked :: "Graph \<Rightarrow> (string \<times> string) set" where
  "linked graph = (\<lambda>e. (source e, target e)) ` set (g_edges graph)
                  \<union> (\<lambda>e. (target e, source e)) ` set (g_edges graph)"

definition connected :: "Graph \<Rightarrow> string \<Rightarrow> string \<Rightarrow> bool" where
  "connected graph u v = ((u, v) \<in> (linked graph)\<^sup>*)"

definition componentsOf :: "Graph \<Rightarrow> string set set" where
  "componentsOf graph = (\<lambda>n. {m. connected graph n m}) ` set (g_nodes graph)"

definition wellFormed :: "Graph \<Rightarrow> bool" where
  "wellFormed graph =
     (distinct (g_nodes graph)
      \<and> list_all (\<lambda>e. source e \<in> set (g_nodes graph) \<and> target e \<in> set (g_nodes graph))
           (g_edges graph))"

definition nbr :: "adjacency \<Rightarrow> string \<Rightarrow> string set" where
  "nbr adj u = set (getOr [] adj u)"

definition Rel :: "adjacency \<Rightarrow> (string \<times> string) set" where
  "Rel adj = {(u, v). v \<in> nbr adj u}"

definition bfs_inv ::
  "adjacency \<Rightarrow> string \<Rightarrow> string set \<Rightarrow> string list \<Rightarrow> string list \<Rightarrow> string list \<Rightarrow> bool" where
  "bfs_inv adj s V0 q vis cpt =
     (distinct (cpt @ q) \<and> set vis = V0 \<union> set cpt \<union> set q
      \<and> (set cpt \<union> set q) \<inter> V0 = {}
      \<and> set cpt \<union> set q \<subseteq> (Rel adj)\<^sup>* `` {s}
      \<and> (\<forall>u \<in> set cpt. nbr adj u \<subseteq> set vis)
      \<and> s \<in> set cpt \<union> set q)"

definition comps_inv :: "adjacency \<Rightarrow> string set \<Rightarrow> string list list \<Rightarrow> string list \<Rightarrow> bool" where
  "comps_inv adj N comps visited =
     (set visited = set (concat comps) \<and> set visited \<subseteq> N
      \<and> Rel adj `` set visited \<subseteq> set visited
      \<and> distinct (concat comps)
      \<and> (\<forall>c \<in> set comps. c \<noteq> [] \<and> (\<forall>x \<in> set c. set c = (Rel adj)\<^sup>* `` {x})))"

text \<open>A single node \<open>a\<close> with a link to \<open>z\<close>, which is not a node of the graph.\<close>

definition dangling_link :: GraphData where
  "dangling_link = \<lparr>nodes = [\<lparr>id' = ''a''\<rparr>], links = [\<lparr>source = ''a'', target = ''z''\<rparr>]\<rparr>"

subsection \<open>Girvan-Newman, second variant\<close>


















section \<open>Normalized mutual information (\<open>utils/performance.ts\<close>)\<close>

text \<open>
  JavaScript numbers are modelled as reals: sums, quotients and \<open>Math.log2\<close> are exact, and the
  literal \<open>1e-15\<close> is the rational \<open>1 / 10 ^ 15\<close>. \<open>new Map(pairs)\<close> keeps the last
  value of a key at the position of its first occurrence; \<open>indexOf\<close> returns \<open>None\<close> for
  \<open>-1\<close>.
\<close>

definition newMap :: "('k \<times> 'v) list \<Rightarrow> ('k \<times> 'v) list" where
  "newMap kvs = fold (\<lambda>(k, v). AList.update k v) kvs []"

fun indexOf :: "'a list \<Rightarrow> 'a \<Rightarrow> nat option" where
  "indexOf [] x = None"
| "indexOf (y # ys) x = (if y = x then Some 0 else map_option Suc (indexOf ys x))"

definition eps :: real where
  "eps = 1 / 10 ^ 15"

definition log2 :: "real \<Rightarrow> real" where
  "log2 x = log 2 x"

definition nmi_count ::
  "(string \<times> nat) list \<Rightarrow> (string \<times> nat) list \<Rightarrow> nat list \<Rightarrow> nat list \<Rightarrow> Node
   \<Rightarrow> nat list list \<Rightarrow> nat list list" where
  "nmi_count groundTruthMap detectedMap groundTruthLabels detectedLabels nd contingencyTable =
     (case (map_of groundTruthMap (id' nd), map_of detectedMap (id' nd)) of
        (Some gtCommunity, Some dtCommunity) \<Rightarrow>
          (case (indexOf groundTruthLabels gtCommunity, indexOf detectedLabels dtCommunity) of
             (Some gtIndex, Some dtIndex) \<Rightarrow>
               contingencyTable[gtIndex :=
                 (contingencyTable ! gtIndex)[dtIndex := contingencyTable ! gtIndex ! dtIndex + 1]]
           | _ \<Rightarrow> contingencyTable)
      | _ \<Rightarrow> contingencyTable)"

definition rowTotal :: "nat list list \<Rightarrow> nat \<Rightarrow> nat" where
  "rowTotal contingencyTable i = fold (\<lambda>b a. a + b) (contingencyTable ! i) 0"

definition colTotal :: "nat list list \<Rightarrow> nat \<Rightarrow> nat" where
  "colTotal contingencyTable j = fold (\<lambda>row sum. sum + row ! j) contingencyTable 0"

definition mi_cell :: "nat list list \<Rightarrow> nat \<Rightarrow> nat \<Rightarrow> nat \<Rightarrow> real \<Rightarrow> real" where
  "mi_cell contingencyTable n i j mutualInformation =
     (if contingencyTable ! i ! j > 0 then
        let p_ij = real (contingencyTable ! i ! j) / real n;
            p_i = real (rowTotal contingencyTable i) / real n;
            p_j = real (colTotal contingencyTable j) / real n
        in mutualInformation + p_ij * log2 (p_ij / (p_i * p_j) + eps)
      else mutualInformation)"

definition entropy_step :: "real \<Rightarrow> real \<Rightarrow> real" where
  "entropy_step p entropy = (if p > 0 then entropy - p * log2 (p + eps) else entropy)"

definition calculateNMI ::
  "CommunityAssignment list \<Rightarrow> CommunityAssignment list \<Rightarrow> Node list \<Rightarrow> real" where
  "calculateNMI groundTruth detected nodes' =
     (let n = length nodes';
          groundTruthMap = newMap (map (\<lambda>item. (node item, community item)) groundTruth);
          detectedMap = newMap (map (\<lambda>item. (node item, community item)) detected);
          groundTruthLabels = newSet (map community groundTruth);
          detectedLabels = newSet (map community detected);
          table0 = replicate (length groundTruthLabels) (replicate (length detectedLabels) 0);
          contingencyTable =
            fold (nmi_count groundTruthMap detectedMap groundTruthLabels detectedLabels) nodes' table0;
          mutualInformation =
            fold (\<lambda>i acc. fold (mi_cell contingencyTable n i) [0 ..< length detectedLabels] acc)
              [0 ..< length groundTruthLabels] 0;
          entropyGroundTruth =
            fold (\<lambda>i. entropy_step (real (rowTotal contingencyTable i) / real n))
              [0 ..< length groundTruthLabels] 0;
          entropyDetected =
            fold (\<lambda>j. entropy_step (real (colTotal contingencyTable j) / real n))
              [0 ..< length detectedLabels] 0
      in if entropyGroundTruth = 0 \<and> entropyDetected = 0 then 1
         else max 0 (min 1 ((2 * mutualInformation) / (entropyGroundTruth + entropyDetected))))"

definition one_community :: "CommunityAssignment list" where
  "one_community = [\<lparr>node = ''a'', community = 0\<rparr>, \<lparr>node = ''b'', community = 0\<rparr>]"

definition ab_nodes :: "Node list" where
  "ab_nodes = [\<lparr>id' = ''a''\<rparr>, \<lparr>id' = ''b''\<rparr>]"

section \<open>Centrality: graph representation and PageRank (\<open>utils/centrality.ts\<close>)\<close>

text \<open>
  The three maps of \<open>buildGraphRepresentation\<close>, in insertion order. A link is recorded
  only when both of its endpoints are keys of \<open>adj\<close>. A lookup written \<open>m.get(k)!\<close> in the
  source is \<open>getOr\<close> with a default that is never used, the key being present at each such
  lookup.
\<close>

record GraphRepresentation =
  gr_adj :: "(string \<times> string list) list"
  gr_revAdj :: "(string \<times> string list) list"
  gr_outDegrees :: "(string \<times> nat) list"

definition rep_addNode :: "Node \<Rightarrow> GraphRepresentation \<Rightarrow> GraphRepresentation" where
  "rep_addNode n r =
     \<lparr>gr_adj = AList.update (id' n) [] (gr_adj r),
      gr_revAdj = AList.update (id' n) [] (gr_revAdj r),
      gr_outDegrees = AList.update (id' n) 0 (gr_outDegrees r)\<rparr>"

definition rep_addLink :: "bool \<Rightarrow> Link \<Rightarrow> GraphRepresentation \<Rightarrow> GraphRepresentation" where
  "rep_addLink isDirected l r =
     (let sourceId = source l; targetId = target l in
      if has (gr_adj r) sourceId \<and> has (gr_adj r) targetId then
        let r1 = \<lparr>gr_adj = push sourceId targetId (gr_adj r),
                  gr_revAdj = push targetId sourceId (gr_revAdj r),
                  gr_outDegrees = incr sourceId (gr_outDegrees r)\<rparr>
        in if \<not> isDirected then
             \<lparr>gr_adj = push targetId sourceId (gr_adj r1),
              gr_revAdj = push sourceId targetId (gr_revAdj r1),
              gr_outDegrees = incr targetId (gr_outDegrees r1)\<rparr>
           else r1
      else r)"

definition buildGraphRepresentation :: "GraphData \<Rightarrow> bool \<Rightarrow> GraphRepresentation" where
  "buildGraphRepresentation graphData isDirected =
     fold (rep_addLink isDirected) (links graphData)
       (fold rep_addNode (nodes graphData) \<lparr>gr_adj = [], gr_revAdj = [], gr_outDegrees = []\<rparr>)"

text \<open>PageRank, with the default arguments of the source.\<close>

definition damping :: real where
  "damping = 85 / 100"

definition pr_maxIterations :: nat where
  "pr_maxIterations = 100"

definition tolerance :: real where
  "tolerance = 1 / 10 ^ 6"

definition danglingSum :: "Node list \<Rightarrow> (string \<times> nat) list \<Rightarrow> (string \<times> real) list \<Rightarrow> real" where
  "danglingSum ns outDegrees ranks =
     fold (\<lambda>nd acc. if getOr 0 outDegrees (id' nd) = 0 then acc + getOr 0 ranks (id' nd) else acc)
       ns 0"

definition rankSum ::
  "(string \<times> string list) list \<Rightarrow> (string \<times> nat) list \<Rightarrow> (string \<times> real) list \<Rightarrow> Node \<Rightarrow> real" where
  "rankSum revAdj outDegrees ranks nd =
     fold (\<lambda>neighbor acc.
             let neighborOutDegree = getOr 0 outDegrees neighbor in
             if neighborOutDegree > 0 then acc + getOr 0 ranks neighbor / real neighborOutDegree
             else acc)
       (getOr [] revAdj (id' nd)) 0"

definition pr_node ::
  "GraphRepresentation \<Rightarrow> nat \<Rightarrow> (string \<times> real) list \<Rightarrow> real \<Rightarrow> Node
   \<Rightarrow> (string \<times> real) list \<times> real \<Rightarrow> (string \<times> real) list \<times> real" where
  "pr_node r n ranks dangling nd = (\<lambda>(newRanks, diff).
     let danglingContribution = dangling / real n;
         newRank = (1 - damping) / real n
                   + damping * (rankSum (gr_revAdj r) (gr_outDegrees r) ranks nd + danglingContribution);
         newRanks' = AList.update (id' nd) newRank newRanks
     in (newRanks', diff + \<bar>getOr 0 newRanks' (id' nd) - getOr 0 ranks (id' nd)\<bar>))"

definition pr_iteration ::
  "GraphRepresentation \<Rightarrow> Node list \<Rightarrow> (string \<times> real) list \<Rightarrow> (string \<times> real) list \<times> real" where
  "pr_iteration r ns ranks =
     fold (pr_node r (length ns) ranks (danglingSum ns (gr_outDegrees r) ranks)) ns ([], 0)"

text \<open>
  The loop \<open>for (let i = 0; i < maxIterations; i++)\<close>, by the number of iterations left; it
  is left early once the ranks move by less than the tolerance.
\<close>

fun pr_for ::
  "nat \<Rightarrow> GraphRepresentation \<Rightarrow> Node list \<Rightarrow> (string \<times> real) list \<Rightarrow> (string \<times> real) list" where
  "pr_for 0 r ns ranks = ranks"
| "pr_for (Suc left) r ns ranks =
     (case pr_iteration r ns ranks of
        (newRanks, diff) \<Rightarrow> if diff < tolerance then newRanks else pr_for left r ns newRanks)"

definition pr_ranks :: "GraphData \<Rightarrow> bool \<Rightarrow> (string \<times> real) list" where
  "pr_ranks graphData isDirected =
     (let ns = nodes graphData;
          n = length ns;
          ranks = fold (\<lambda>nd. AList.update (id' nd) (1 / real n)) ns []
      in pr_for pr_maxIterations (buildGraphRepresentation graphData isDirected) ns ranks)"

definition calculatePageRank :: "GraphData \<Rightarrow> bool \<Rightarrow> CentralityResult list" where
  "calculatePageRank graphData isDirected =
     (if length (nodes graphData) = 0 then []
      else
        let ranks = pr_ranks graphData isDirected;
            totalRank = fold (\<lambda>rank sum. sum + rank) (map snd ranks) 0
        in if totalRank > 1 / 10 ^ 9 then
             map (\<lambda>(nodeId', score'). \<lparr>nodeId = nodeId', score = score' / totalRank\<rparr>) ranks
           else [])"

text \<open>A lower bound on every rank of a map, and a path of three nodes.\<close>

definition lower :: "real \<Rightarrow> (string \<times> real) list \<Rightarrow> bool" where
  "lower b ranks = list_all (\<lambda>(k, v). b \<le> v) ranks"

definition triangle :: GraphData where
  "triangle = \<lparr>nodes = [\<lparr>id' = ''a''\<rparr>, \<lparr>id' = ''b''\<rparr>, \<lparr>id' = ''c''\<rparr>],
               links = [\<lparr>source = ''a'', target = ''b''\<rparr>, \<lparr>source = ''b'', target = ''c''\<rparr>]\<rparr>"

section \<open>Centrality: the other measures and the dispatcher (\<open>utils/centrality.ts\<close>)\<close>

record HITSCentralityResult =
  authority :: "CentralityResult list"
  hub :: "CentralityResult list"

text \<open>\<open>calculateCentrality\<close> returns a list of scores, or the two lists of HITS.\<close>

datatype centrality_output = Scores "CentralityResult list" | Hits HITSCentralityResult

subsection \<open>Degree\<close>

definition calculateInDegreeCentrality :: "GraphData \<Rightarrow> CentralityResult list" where
  "calculateInDegreeCentrality graphData =
     (let numNodes = length (nodes graphData) in
      if numNodes \<le> 1 then map (\<lambda>nd. \<lparr>nodeId = id' nd, score = 0\<rparr>) (nodes graphData)
      else
        let inDegrees0 = fold (\<lambda>nd. AList.update (id' nd) (0::nat)) (nodes graphData) [];
            inDegrees = fold (\<lambda>link m. if has m (target link) then incr (target link) m else m)
                          (links graphData) inDegrees0
        in map (\<lambda>(nodeId', degree). \<lparr>nodeId = nodeId', score = real degree / (real numNodes - 1)\<rparr>)
             inDegrees)"

definition calculateOutDegreeCentrality :: "GraphData \<Rightarrow> CentralityResult list" where
  "calculateOutDegreeCentrality graphData =
     (let numNodes = length (nodes graphData) in
      if numNodes \<le> 1 then map (\<lambda>nd. \<lparr>nodeId = id' nd, score = 0\<rparr>) (nodes graphData)
      else
        let outDegrees0 = fold (\<lambda>nd. AList.update (id' nd) (0::nat)) (nodes graphData) [];
            outDegrees = fold (\<lambda>link m. if has m (source link) then incr (source link) m else m)
                           (links graphData) outDegrees0
        in map (\<lambda>(nodeId', degree). \<lparr>nodeId = nodeId', score = real degree / (real numNodes - 1)\<rparr>)
             outDegrees)"

subsection \<open>Closeness\<close>

text \<open>
  The queue holds pairs of a node and its distance; as in \<open>getComponents\<close>, only the part of
  the queue not yet taken is kept.
\<close>

definition cl_scan ::
  "string list \<Rightarrow> nat \<Rightarrow> (string \<times> nat) list \<times> string list \<Rightarrow> (string \<times> nat) list \<times> string list" where
  "cl_scan neighbors distance =
     fold (\<lambda>neighbor (q, visited).
             if neighbor \<notin> set visited then (q @ [(neighbor, distance + 1)], visited @ [neighbor])
             else (q, visited)) neighbors"

lemma cl_scan_effect:
  "cl_scan nbrs distance (q, visited) = (q', visited') \<Longrightarrow>
   \<exists>new. length q' = length q + length new \<and> visited' = visited @ new \<and> distinct new
         \<and> set new \<subseteq> set nbrs \<and> set new \<inter> set visited = {}"
proof (induction nbrs arbitrary: q visited)
  case Nil
  then show ?case by (simp add: cl_scan_def)
next
  case (Cons v nbrs)
  show ?case
  proof (cases "v \<in> set visited")
    case True
    then have "cl_scan nbrs distance (q, visited) = (q', visited')"
      using Cons.prems by (simp add: cl_scan_def)
    from Cons.IH[OF this] show ?thesis by auto
  next
    case False
    then have "cl_scan nbrs distance (q @ [(v, distance + 1)], visited @ [v]) = (q', visited')"
      using Cons.prems by (simp add: cl_scan_def)
    from Cons.IH[OF this] obtain new where
      n: "length q' = length (q @ [(v, distance + 1)]) + length new"
         "visited' = (visited @ [v]) @ new" "distinct new"
         "set new \<subseteq> set nbrs" "set new \<inter> set (visited @ [v]) = {}"
      by blast
    have "length q' = length q + length (v # new) \<and> visited' = visited @ (v # new)
         \<and> distinct (v # new) \<and> set (v # new) \<subseteq> set (v # nbrs)
         \<and> set (v # new) \<inter> set visited = {}"
      using n False by auto
    then show ?thesis by blast
  qed
qed

function cl_bfs ::
  "adjacency \<Rightarrow> (string \<times> nat) list \<Rightarrow> string list \<Rightarrow> nat \<times> nat \<Rightarrow> nat \<times> nat" where
  "cl_bfs adj [] visited (totalDistance, reachableNodes) = (totalDistance, reachableNodes)"
| "cl_bfs adj ((currentNode, distance) # rest) visited (totalDistance, reachableNodes) =
     (case cl_scan (getOr [] adj currentNode) distance (rest, visited) of
        (q, visited') \<Rightarrow>
          cl_bfs adj q visited'
            (if distance > 0 then (totalDistance + distance, reachableNodes + 1)
             else (totalDistance, reachableNodes)))"
  by pat_completeness auto
termination
proof (relation "measure (\<lambda>(adj, q, visited, acc).
                   2 * card (allIds adj - set visited) + length q)", goal_cases)
  case 1
  show ?case by simp
next
  case (2 adj currentNode distance rest visited totalDistance reachableNodes q visited')
  then have "cl_scan (getOr [] adj currentNode) distance (rest, visited) = (q, visited')" by simp
  from cl_scan_effect[OF this] obtain new where
    n: "length q = length rest + length new" "visited' = visited @ new" "distinct new"
       "set new \<subseteq> set (getOr [] adj currentNode)" "set new \<inter> set visited = {}"
    by blast
  have sub: "set new \<subseteq> allIds adj - set visited"
    using n(4,5) getOr_allIds[of adj currentNode] by auto
  have "allIds adj - set visited' = (allIds adj - set visited) - set new"
    using n(2) by auto
  then have "card (allIds adj - set visited') = card (allIds adj - set visited) - card (set new)"
    using sub finite_allIds[of adj] by (simp add: card_Diff_subset finite_subset)
  moreover have "card (set new) = length new" using n(3) by (simp add: distinct_card)
  moreover have "length new \<le> card (allIds adj - set visited)"
    using sub finite_allIds[of adj] n(3) by (metis card_mono distinct_card finite_Diff)
  ultimately show ?case
    using n(1) by simp
qed

definition calculateClosenessCentrality :: "GraphData \<Rightarrow> bool \<Rightarrow> CentralityResult list" where
  "calculateClosenessCentrality graphData isDirected =
     (let adj = gr_adj (buildGraphRepresentation graphData isDirected) in
      map (\<lambda>startNode.
             case cl_bfs adj [(id' startNode, 0)] [id' startNode] (0, 0) of
               (totalDistance, reachableNodes) \<Rightarrow>
                 \<lparr>nodeId = id' startNode,
                  score = (if totalDistance > 0 \<and> reachableNodes > 0
                           then real reachableNodes / real totalDistance else 0)\<rparr>)
        (nodes graphData))"

subsection \<open>Betweenness\<close>

text \<open>
  The search from one source is the one written in \<open>runGirvanNewman\<close>, on the adjacency of
  the representation and in exact arithmetic. The dependencies are then accumulated on the nodes, in the reverse of
  the order in which the search took them.
\<close>

definition cb_credit ::
  "(string \<times> real) list \<Rightarrow> string \<Rightarrow> string \<Rightarrow> (string \<times> real) list \<Rightarrow> (string \<times> real) list" where
  "cb_credit sigma w v delta =
     (let c = (getOr 0 sigma v / getOr 0 sigma w) * (1 + getOr 0 delta w)
      in AList.update v (getOr 0 delta v + c) delta)"

definition cb_pop ::
  "(string \<times> real) list \<Rightarrow> adjacency \<Rightarrow> string \<Rightarrow> string
   \<Rightarrow> (string \<times> real) list \<times> (string \<times> real) list
   \<Rightarrow> (string \<times> real) list \<times> (string \<times> real) list" where
  "cb_pop sigma P s w = (\<lambda>(betweenness, delta).
     let delta' = fold (cb_credit sigma w) (getOr [] P w) delta
     in (if w \<noteq> s then AList.update w (getOr 0 betweenness w + getOr 0 delta' w) betweenness
         else betweenness,
         delta'))"

definition cb_source ::
  "string list \<Rightarrow> adjacency \<Rightarrow> string \<Rightarrow> (string \<times> real) list \<Rightarrow> (string \<times> real) list" where
  "cb_source ns adj s betweenness =
     (case brandes_bfs (\<lambda>x. x) adj [s]
             ([], AList.update s (Some 0) (fold (\<lambda>n. AList.update n None) ns []),
              AList.update s 1 (fold (\<lambda>n. AList.update n 0) ns []),
              fold (\<lambda>n. AList.update n []) ns []) of
        (S, sigma, P) \<Rightarrow>
          fst (fold (cb_pop sigma P s) (rev S)
                 (betweenness, fold (\<lambda>n. AList.update n 0) ns [])))"

definition calculateBetweennessCentrality :: "GraphData \<Rightarrow> bool \<Rightarrow> CentralityResult list" where
  "calculateBetweennessCentrality graphData isDirected =
     (let ns = map id' (nodes graphData);
          adj = gr_adj (buildGraphRepresentation graphData isDirected);
          betweenness = fold (cb_source ns adj) ns (fold (\<lambda>n. AList.update n 0) ns []);
          n = length ns;
          scale = (if n > 2
                   then (if isDirected then 1 / ((real n - 1) * (real n - 2))
                         else 2 / ((real n - 1) * (real n - 2)))
                   else 1)
      in map (\<lambda>(nodeId', score'). \<lparr>nodeId = nodeId', score = score' * scale\<rparr>) betweenness)"

subsection \<open>HITS\<close>

definition hits_norm :: "real \<Rightarrow> real" where
  "hits_norm sumSq = (if sqrt sumSq = 0 then 1 else sqrt sumSq)"

definition hits_update ::
  "adjacency \<Rightarrow> (string \<times> real) list \<Rightarrow> Node
   \<Rightarrow> (string \<times> real) list \<times> real \<Rightarrow> (string \<times> real) list \<times> real" where
  "hits_update neighborsOf other nd = (\<lambda>(scores, sumSq).
     let score' = fold (\<lambda>neighbor acc. acc + getOr 0 other neighbor)
                    (getOr [] neighborsOf (id' nd)) 0
     in (AList.update (id' nd) score' scores, sumSq + score' * score'))"

definition hits_normalize :: "real \<Rightarrow> (string \<times> real) list \<Rightarrow> (string \<times> real) list" where
  "hits_normalize authNorm scores = map (\<lambda>(k, score'). (k, score' / authNorm)) scores"

definition hits_iteration ::
  "GraphRepresentation \<Rightarrow> Node list \<Rightarrow> (string \<times> real) list \<times> (string \<times> real) list
   \<Rightarrow> ((string \<times> real) list \<times> (string \<times> real) list) \<times> real" where
  "hits_iteration r ns = (\<lambda>(authorityScores, hubScores).
     let lastAuth = authorityScores;
         (auth1, authSumSq) = fold (hits_update (gr_revAdj r) hubScores) ns (authorityScores, 0);
         auth2 = hits_normalize (hits_norm authSumSq) auth1;
         (hub1, hubSumSq) = fold (hits_update (gr_adj r) auth2) ns (hubScores, 0);
         hub2 = hits_normalize (hits_norm hubSumSq) hub1;
         diff = fold (\<lambda>nd acc. acc + \<bar>getOr 0 auth2 (id' nd) - getOr 0 lastAuth (id' nd)\<bar>) ns 0
     in ((auth2, hub2), diff))"

fun hits_for ::
  "nat \<Rightarrow> GraphRepresentation \<Rightarrow> Node list \<Rightarrow> (string \<times> real) list \<times> (string \<times> real) list
   \<Rightarrow> (string \<times> real) list \<times> (string \<times> real) list" where
  "hits_for 0 r ns scores = scores"
| "hits_for (Suc left) r ns scores =
     (case hits_iteration r ns scores of
        (scores', diff) \<Rightarrow> if diff < tolerance then scores' else hits_for left r ns scores')"

definition calculateHITS :: "GraphData \<Rightarrow> bool \<Rightarrow> HITSCentralityResult" where
  "calculateHITS graphData isDirected =
     (let ns = nodes graphData;
          r = buildGraphRepresentation graphData isDirected
      in if length ns = 0 then \<lparr>authority = [], hub = []\<rparr>
         else
           let ones = fold (\<lambda>nd. AList.update (id' nd) 1) ns []
           in case hits_for 100 r ns (ones, ones) of
                (authorityScores, hubScores) \<Rightarrow>
                  \<lparr>authority = map (\<lambda>(nodeId', score'). \<lparr>nodeId = nodeId', score = score'\<rparr>)
                                 authorityScores,
                   hub = map (\<lambda>(nodeId', score'). \<lparr>nodeId = nodeId', score = score'\<rparr>) hubScores\<rparr>)"

subsection \<open>Dispatcher\<close>

definition calculateCentrality ::
  "GraphData \<Rightarrow> CentralityAlgorithm selector \<Rightarrow> bool \<Rightarrow> centrality_output" where
  "calculateCentrality graphData algorithm isDirected =
     (case algorithm of
        Member IN_DEGREE \<Rightarrow> Scores (calculateInDegreeCentrality graphData)
      | Member OUT_DEGREE \<Rightarrow> Scores (calculateOutDegreeCentrality graphData)
      | Member CLOSENESS \<Rightarrow> Scores (calculateClosenessCentrality graphData isDirected)
      | Member BETWEENNESS \<Rightarrow> Scores (calculateBetweennessCentrality graphData isDirected)
      | Member PAGERANK \<Rightarrow> Scores (calculatePageRank graphData isDirected)
      | Member HITS_AUTHORITY \<Rightarrow> Hits (calculateHITS graphData isDirected)
      | Member HITS_HUB \<Rightarrow> Hits (calculateHITS graphData isDirected)
      | Other s \<Rightarrow> Scores [])"

section \<open>The worker's message handler (\<open>self.onmessage\<close>)\<close>

text \<open>
  The handler builds the graph, runs the algorithm selected and posts one message: the
  partition, or the message of whatever was thrown. It posts nothing (\<open>None\<close>) when the
  algorithm does not return.
\<close>

record Params =
  p_resolution :: real
  p_targetCommunities :: int

datatype message = SUCCESS "CommunityAssignment list" | ERROR error

definition onmessage ::
  "(real \<Rightarrow> real) \<Rightarrow> GraphData \<Rightarrow> Algorithm selector \<Rightarrow> Params \<Rightarrow> message option" where
  "onmessage rnd graphData algorithm params =
     (let graph = newGraph graphData in
      case algorithm of
        Member LOUVAIN \<Rightarrow> map_option SUCCESS (runLouvain rnd graph (p_resolution params))
      | Member GIRVAN_NEWMAN \<Rightarrow>
          if length (g_nodes graph) > 100 then Some (ERROR TooManyNodes)
          else (case runGirvanNewman rnd graph (p_targetCommunities params) of
                  None \<Rightarrow> None
                | Some (Inl err) \<Rightarrow> Some (ERROR err)
                | Some (Inr result) \<Rightarrow> Some (SUCCESS result))
      | Member LABEL_PROPAGATION \<Rightarrow> Some (SUCCESS (runLabelPropagation graph))
      | Other s \<Rightarrow> Some (ERROR (UnknownAlgorithm s)))"

definition one_node :: GraphData where
  "one_node = \<lparr>nodes = [\<lparr>id' = ''a''\<rparr>], links = []\<rparr>"

section \<open>The LFR generator, from the assignment of the nodes (\<open>generateLFRNetwork\<close>)\<close>





subsection \<open>Step 2: the nodes of each community\<close>



subsection \<open>Step 4: internal and external degrees\<close>









subsection \<open>Step 5: the stubs\<close>



subsection \<open>Step 6: pairing the stubs\<close>













section \<open>Link prediction: pairs that are already edges\<close>

lemma buildPredictionGraph_ba:
  "buildPredictionGraph \<lparr>nodes = [\<lparr>id' = ''b''\<rparr>, \<lparr>id' = ''a''\<rparr>],
                         links = [\<lparr>source = ''b'', target = ''a''\<rparr>]\<rparr>
   = \<lparr>pg_nodes = [''b'', ''a''],
      pg_adj = [(''b'', [''a'']), (''a'', [''b''])],
      pg_degrees = [(''b'', Suc 0), (''a'', Suc 0)],
      existingLinks = [''a|b'']\<rparr>"
  by (simp add: buildPredictionGraph_def pg_addLink_def has_def getOr_def add_def linkKey_def
      Let_def)

lemma getCandidateLinks_ba:
  "getCandidateLinks \<lparr>pg_nodes = [''b'', ''a''],
      pg_adj = [(''b'', [''a'']), (''a'', [''b''])],
      pg_degrees = [(''b'', Suc 0), (''a'', Suc 0)],
      existingLinks = [''a|b'']\<rparr> = [(''b'', ''a'')]"
  by (simp add: getCandidateLinks_def linkKey_def upt_rec Let_def)

lemma calculatePreferentialAttachment_ba:
  "calculatePreferentialAttachment \<lparr>pg_nodes = [''b'', ''a''],
      pg_adj = [(''b'', [''a'']), (''a'', [''b''])],
      pg_degrees = [(''b'', Suc 0), (''a'', Suc 0)],
      existingLinks = [''a|b'']\<rparr>
   = [\<lparr>lp_source = ''b'', lp_target = ''a'', lp_score = 1\<rparr>]"
  unfolding calculatePreferentialAttachment_def getCandidateLinks_ba
  by (simp add: getOr_def)

text \<open>
  C1. Link prediction is to return no pair that is already an edge of the input graph.
  The edge list \<open>b a\<close> parses to the nodes \<open>b, a\<close> and the link \<open>(b, a)\<close>. The existing
  link is stored under the sorted key \<open>a|b\<close>, the candidate is looked up under the key
  \<open>b|a\<close> of the node order, and preferential attachment returns the existing edge.
\<close>

theorem C1_existing_edge_predicted:
  "calculateLinkPrediction
     \<lparr>nodes = [\<lparr>id' = ''b''\<rparr>, \<lparr>id' = ''a''\<rparr>], links = [\<lparr>source = ''b'', target = ''a''\<rparr>]\<rparr>
     (Member PREFERENTIAL_ATTACHMENT)
   = Inr [\<lparr>lp_source = ''b'', lp_target = ''a'', lp_score = 1\<rparr>]"
  unfolding calculateLinkPrediction_def
  by (simp add: buildPredictionGraph_ba calculatePreferentialAttachment_ba)

section \<open>Label propagation: tie-breaking, isolated nodes, stopping\<close>


lemma bestLabels_fold:
  "fold (\<lambda>(label, count) (maxCount, best).
             if count > maxCount then (count, [label])
             else if count = maxCount then (maxCount, best @ [label])
             else (maxCount, best)) cs (m, b)
   = (let M = Max (insert (m::nat) (snd ` set cs)) in
      (M, (if M = m then b else []) @ map fst (filter (\<lambda>(l, c). c = M) cs)))"
proof (induction cs arbitrary: m b)
  case Nil
  then show ?case by simp
next
  case (Cons x cs)
  obtain l c where x: "x = (l, c)" by (cases x)
  define S where "S = snd ` set cs"
  define K where "K = Max (insert c S)"
  define L where "L = Max (insert m S)"
  have fin: "finite S" by (simp add: S_def)
  have M: "Max (insert m (snd ` set (x # cs))) = max m K"
    using fin by (simp add: x K_def S_def)
  have ge: "c \<le> K" using fin by (simp add: K_def)
  have IH: "\<And>m b. fold (\<lambda>(label, count) (maxCount, best).
             if count > maxCount then (count, [label])
             else if count = maxCount then (maxCount, best @ [label])
             else (maxCount, best)) cs (m, b)
       = (Max (insert m S), (if Max (insert m S) = m then b else [])
              @ map fst (filter (\<lambda>(l, c). c = Max (insert m S)) cs))"
    by (simp add: Cons.IH Let_def S_def)
  consider "c > m" | "c = m" | "c < m" by linarith
  then show ?case
  proof cases
    case 1
    then have "max m K = K" using ge by simp
    then show ?thesis using 1 ge
      unfolding Let_def M by (simp add: x IH K_def[symmetric])
  next
    case 2
    then have "max m K = K" using ge by simp
    moreover have "Max (insert m S) = K" using 2 by (simp add: K_def)
    ultimately show ?thesis using 2
      unfolding Let_def M by (simp add: x IH)
  next
    case 3
    have KL: "max m K = L"
      using 3 fin unfolding K_def L_def by (cases "S = {}") (auto simp: max_def)
    have "m \<le> L" using fin by (simp add: L_def)
    then show ?thesis using 3
      unfolding Let_def M KL by (auto simp: x IH L_def[symmetric])
  qed
qed

lemma hd_sort_Min: "xs \<noteq> [] \<Longrightarrow> hd (sort xs) = Min (set (xs::'a::linorder list))"
proof -
  assume ne: "xs \<noteq> []"
  then have "sort xs \<noteq> []" by (metis length_0_conv length_sort)
  then obtain y ys where s: "sort xs = y # ys" by (cases "sort xs") auto
  have "sorted (y # ys)" using s sorted_sort by metis
  then have "\<forall>z \<in> set (y # ys). y \<le> z" by auto
  moreover have "set (y # ys) = set xs" using s set_sort by metis
  ultimately have "Min (set xs) = y"
    by (intro Min_eqI) auto
  then show ?thesis using s by simp
qed

lemma labelCounts_fold:
  "distinct (map fst acc) \<Longrightarrow>
   map_of (fold (\<lambda>x. incr (f x)) xs acc) l =
     (if l \<in> f ` set xs \<or> has acc l then Some (getOr 0 acc l + count_list (map f xs) l) else None)"
proof (induction xs arbitrary: acc)
  case Nil
  then show ?case by (auto simp: has_def getOr_def split: option.splits)
next
  case (Cons x xs)
  have d: "distinct (map fst (incr (f x) acc))"
    using Cons.prems by (simp add: incr_def distinct_update)
  show ?case
    using Cons.IH[OF d]
    by (auto simp: incr_def update_conv' has_def getOr_def split: option.splits)
qed

lemma labelCounts_distinct:
  "distinct (map fst acc) \<Longrightarrow> distinct (map fst (fold (\<lambda>x. incr (f x)) xs acc))"
  by (induction xs arbitrary: acc) (auto simp: incr_def distinct_update)

lemma labelCounts_map_of:
  "map_of (labelCounts c ns) l =
     (let ls = map (getOr [] c) ns in if l \<in> set ls then Some (count_list ls l) else None)"
  unfolding labelCounts_def
  using labelCounts_fold[of "[]" "getOr [] c" ns l]
  by (simp add: has_def getOr_def)

lemma labelCounts_keys: "distinct (map fst (labelCounts c ns))"
  unfolding labelCounts_def by (rule labelCounts_distinct) simp

lemma bestLabels_set:
  assumes "ns \<noteq> []"
  shows "set (snd (bestLabels (labelCounts c ns))) = set (mostFrequent (map (getOr [] c) ns))"
proof -
  define ls where "ls = map (getOr [] c) ns"
  define LC where "LC = labelCounts c ns"
  define M where "M = Max (insert 0 (snd ` set LC))"
  have ne: "ls \<noteq> []" using assms by (simp add: ls_def)
  have mo: "\<And>l k. (l, k) \<in> set LC \<longleftrightarrow> l \<in> set ls \<and> k = count_list ls l"
  proof -
    fix l k
    have "(l, k) \<in> set LC \<longleftrightarrow> map_of LC l = Some k"
      using labelCounts_keys[of c ns] by (simp add: LC_def)
    then show "(l, k) \<in> set LC \<longleftrightarrow> l \<in> set ls \<and> k = count_list ls l"
      by (auto simp: LC_def labelCounts_map_of Let_def ls_def)
  qed
  have vals: "snd ` set LC = count_list ls ` set ls"
  proof (intro set_eqI iffI)
    fix k assume "k \<in> snd ` set LC"
    then obtain l where "(l, k) \<in> set LC" by force
    then show "k \<in> count_list ls ` set ls" using mo by auto
  next
    fix k assume "k \<in> count_list ls ` set ls"
    then obtain l where "l \<in> set ls" "k = count_list ls l" by auto
    then have "(l, k) \<in> set LC" using mo by simp
    then show "k \<in> snd ` set LC" by force
  qed
  have best: "snd (bestLabels LC) = map fst (filter (\<lambda>(l, k). k = M) LC)"
    unfolding bestLabels_def bestLabels_fold by (simp add: Let_def M_def)
  have fin: "finite (count_list ls ` set ls)" "count_list ls ` set ls \<noteq> {}"
    using ne by auto
  have M': "M = Max (count_list ls ` set ls)"
    unfolding M_def vals using fin by (simp add: max_def)
  have "set (snd (bestLabels LC)) = {l. (l, M) \<in> set LC}"
    unfolding best by (auto simp: image_iff)
  also have "\<dots> = {l \<in> set ls. count_list ls l = M}"
  proof (intro Collect_cong)
    fix l show "((l, M) \<in> set LC) = (l \<in> set ls \<and> count_list ls l = M)"
      unfolding mo by blast
  qed
  also have "\<dots> = {l \<in> set ls. \<forall>l'\<in>set ls. count_list ls l' \<le> count_list ls l}"
    unfolding M'
  proof (intro Collect_cong conj_cong refl)
    fix l assume "l \<in> set ls"
    then have mem: "count_list ls l \<in> count_list ls ` set ls" by simp
    show "(count_list ls l = Max (count_list ls ` set ls)) = (\<forall>l'\<in>set ls. count_list ls l' \<le> count_list ls l)"
    proof
      assume e: "count_list ls l = Max (count_list ls ` set ls)"
      show "\<forall>l'\<in>set ls. count_list ls l' \<le> count_list ls l"
        unfolding e using fin by simp
    next
      assume a: "\<forall>l'\<in>set ls. count_list ls l' \<le> count_list ls l"
      show "count_list ls l = Max (count_list ls ` set ls)"
        by (rule Max_eqI[symmetric]) (use a mem fin in auto)
    qed
  qed
  also have "\<dots> = set (mostFrequent ls)"
    by (simp add: mostFrequent_def)
  finally show ?thesis by (simp add: LC_def ls_def)
qed

lemma mostFrequent_nonempty: "ls \<noteq> [] \<Longrightarrow> set (mostFrequent ls) \<noteq> {}"
proof -
  assume ne: "ls \<noteq> []"
  then have "Max (count_list ls ` set ls) \<in> count_list ls ` set ls"
    by (intro Max_in) auto
  then obtain l where l: "l \<in> set ls" "count_list ls l = Max (count_list ls ` set ls)"
    by auto
  then have "l \<in> set (mostFrequent ls)"
    unfolding mostFrequent_def using ne by auto
  then show ?thesis by auto
qed

lemma newCommunity_tie:
  assumes "ns \<noteq> []"
  shows "newCommunity c ns = Min (set (mostFrequent (map (getOr [] c) ns)))"
proof -
  have "set (snd (bestLabels (labelCounts c ns))) \<noteq> {}"
    using bestLabels_set[OF assms] mostFrequent_nonempty[of "map (getOr [] c) ns"] assms by simp
  then have "snd (bestLabels (labelCounts c ns)) \<noteq> []" by auto
  then show ?thesis
    unfolding newCommunity_def by (simp add: hd_sort_Min bestLabels_set[OF assms])
qed

lemma lp_visit_adopts:
  assumes "getOr [] (g_adj graph) n \<noteq> []"
  shows "map_of (fst (lp_visit graph n (c, ch))) n =
         Some (Min (set (mostFrequent (map (getOr [] c) (getOr [] (g_adj graph) n)))))"
  using assms newCommunity_tie[OF assms, of c]
  by (simp add: lp_visit_def Let_def update_conv')

lemma lp_visit_other:
  assumes "k \<noteq> n \<or> getOr [] (g_adj graph) n = []"
  shows "map_of (fst (lp_visit graph n s)) k = map_of (fst s) k"
  using assms by (cases s) (auto simp: lp_visit_def Let_def update_conv')

lemma lp_fold_isolated:
  assumes "getOr [] (g_adj graph) k = []"
  shows "map_of (fst (fold (lp_visit graph) ns s)) k = map_of (fst s) k"
proof (induction ns arbitrary: s)
  case Nil
  then show ?case by simp
next
  case (Cons n ns)
  have "k \<noteq> n \<or> getOr [] (g_adj graph) n = []" using assms by auto
  then show ?case by (simp add: Cons.IH lp_visit_other)
qed


lemma lp_while_isolated:
  "getOr [] (g_adj graph) k = [] \<Longrightarrow>
   map_of (fst (lp_while graph nodeIds st)) k = map_of (fst st) k"
proof (induction graph nodeIds st rule: lp_while.induct)
  case (1 graph nodeIds communities changed iterations)
  note lone = "1.prems"
  show ?case
  proof (cases "changed \<and> iterations < maxIterations")
    case True
    obtain c' ch' where p: "lp_pass graph nodeIds communities = (c', ch')"
      by (cases "lp_pass graph nodeIds communities")
    have f: "fold (lp_visit graph) nodeIds (communities, False) = (c', ch')"
      using p by (simp add: lp_pass_def)
    have "map_of (fst (fold (lp_visit graph) nodeIds (communities, False))) k
            = map_of communities k"
      using lp_fold_isolated[OF lone, of nodeIds "(communities, False)"] by simp
    then have "map_of c' k = map_of communities k"
      unfolding f by simp
    moreover have "lp_while graph nodeIds (communities, changed, iterations)
            = lp_while graph nodeIds (c', ch', iterations + 1)"
      using True p by (subst lp_while.simps) simp
    moreover have "map_of (fst (lp_while graph nodeIds (c', ch', iterations + 1))) k = map_of c' k"
      using "1.IH"[OF True p[symmetric] lone] by simp
    ultimately show ?thesis by simp
  next
    case False
    then show ?thesis by (subst lp_while.simps) auto
  qed
qed

lemma lp_visit_unchanged:
  "snd (lp_visit graph n (c, ch)) = False \<Longrightarrow> lp_visit graph n (c, ch) = (c, False)"
  by (auto simp: lp_visit_def Let_def split: if_splits)

lemma lp_fold_unchanged:
  "snd (fold (lp_visit graph) ns (c, ch)) = False \<Longrightarrow>
   fold (lp_visit graph) ns (c, ch) = (c, False) \<and> ch = False"
proof (induction ns arbitrary: c ch)
  case Nil
  then show ?case by simp
next
  case (Cons n ns)
  obtain c' ch' where v: "lp_visit graph n (c, ch) = (c', ch')"
    by (cases "lp_visit graph n (c, ch)")
  from Cons.prems v have s: "snd (fold (lp_visit graph) ns (c', ch')) = False" by simp
  from Cons.IH[OF s] have r: "fold (lp_visit graph) ns (c', ch') = (c', False)" "ch' = False"
    by auto
  from v r(2) lp_visit_unchanged[of graph n c ch] have "c' = c" by simp
  moreover from v r(2) have "ch = False"
    by (auto simp: lp_visit_def Let_def split: if_splits)
  ultimately show ?case using v r by simp
qed

lemma lp_pass_unchanged:
  assumes "snd (lp_pass graph nodeIds c) = False"
  shows "lp_pass graph nodeIds c = (c, False)"
  using lp_fold_unchanged[of graph nodeIds c False] assms by (simp add: lp_pass_def)

lemma lp_pass_snoc:
  "lp_pass graph (before @ [n]) c = lp_visit graph n (lp_pass graph before c)"
  by (simp add: lp_pass_def)

lemma lp_visit_flag:
  "snd (lp_visit graph n (c, ch))
     = (ch \<or> map_of (fst (lp_visit graph n (c, ch))) n \<noteq> map_of c n)"
  by (auto simp: lp_visit_def Let_def update_conv')

lemma lp_while_step:
  assumes "it < maxIterations"
  shows "lp_while graph nodeIds (c, True, it)
         = lp_while graph nodeIds
             (fst (lp_pass graph nodeIds c), snd (lp_pass graph nodeIds c), it + 1)"
  using assms by (subst lp_while.simps) (simp add: split_beta)

lemma lp_while_leave:
  "\<not> (ch \<and> it < maxIterations) \<Longrightarrow> lp_while graph nodeIds (c, ch, it) = (c, ch, it)"
  by (subst lp_while.simps) auto

lemma lp_passes_Suc:
  "lp_passes graph nodeIds (Suc k) c = lp_passes graph nodeIds k (fst (lp_pass graph nodeIds c))"
  by (simp only: lp_passes_def funpow_Suc_right o_apply)

lemma lp_while_run:
  "it < maxIterations \<Longrightarrow> maxIterations - it = d \<Longrightarrow>
   \<exists>k \<ge> 1. it + k \<le> maxIterations
      \<and> lp_while graph nodeIds (c, True, it)
          = (lp_passes graph nodeIds k c,
             snd (lp_pass graph nodeIds (lp_passes graph nodeIds (k - 1) c)), it + k)
      \<and> (\<forall>j < k - 1. snd (lp_pass graph nodeIds (lp_passes graph nodeIds j c)))
      \<and> (it + k < maxIterations \<longrightarrow>
            \<not> snd (lp_pass graph nodeIds (lp_passes graph nodeIds (k - 1) c)))"
proof (induction d arbitrary: c it)
  case 0
  then show ?case by simp
next
  case (Suc d)
  let ?c1 = "fst (lp_pass graph nodeIds c)"
  let ?f1 = "snd (lp_pass graph nodeIds c)"
  have step: "lp_while graph nodeIds (c, True, it) = lp_while graph nodeIds (?c1, ?f1, it + 1)"
    using Suc.prems(1) by (rule lp_while_step)
  show ?case
  proof (cases "?f1 \<and> it + 1 < maxIterations")
    case False
    then have "lp_while graph nodeIds (?c1, ?f1, it + 1) = (?c1, ?f1, it + 1)"
      by (rule lp_while_leave)
    then have r: "lp_while graph nodeIds (c, True, it)
          = (lp_passes graph nodeIds 1 c,
             snd (lp_pass graph nodeIds (lp_passes graph nodeIds (1 - 1) c)), it + 1)"
      using step by (simp add: lp_passes_def)
    have l: "it + 1 \<le> maxIterations" using Suc.prems(1) by simp
    have s: "it + 1 < maxIterations \<longrightarrow>
            \<not> snd (lp_pass graph nodeIds (lp_passes graph nodeIds (1 - 1) c))"
      using False by (auto simp: lp_passes_def)
    show ?thesis
      by (rule exI[of _ 1]) (use r l s in simp)
  next
    case True
    then have f1: "?f1" and lt: "it + 1 < maxIterations" by simp_all
    have d: "maxIterations - (it + 1) = d" using Suc.prems(2) by simp
    from Suc.IH[OF lt d, of ?c1] obtain k where
      k1: "1 \<le> k" and kl: "it + 1 + k \<le> maxIterations"
      and kr: "lp_while graph nodeIds (?c1, True, it + 1)
          = (lp_passes graph nodeIds k ?c1,
             snd (lp_pass graph nodeIds (lp_passes graph nodeIds (k - 1) ?c1)), it + 1 + k)"
      and kf: "\<forall>j < k - 1. snd (lp_pass graph nodeIds (lp_passes graph nodeIds j ?c1))"
      and ks: "it + 1 + k < maxIterations \<longrightarrow>
            \<not> snd (lp_pass graph nodeIds (lp_passes graph nodeIds (k - 1) ?c1))"
      by blast
    have km: "Suc k - 1 = Suc (k - 1)" using k1 by simp
    have r: "lp_while graph nodeIds (c, True, it)
          = (lp_passes graph nodeIds (Suc k) c,
             snd (lp_pass graph nodeIds (lp_passes graph nodeIds (Suc k - 1) c)), it + Suc k)"
      unfolding km lp_passes_Suc using step f1 kr by simp
    have f: "\<forall>j < Suc k - 1. snd (lp_pass graph nodeIds (lp_passes graph nodeIds j c))"
    proof (intro allI impI)
      fix j assume j: "j < Suc k - 1"
      show "snd (lp_pass graph nodeIds (lp_passes graph nodeIds j c))"
      proof (cases j)
        case 0
        then show ?thesis using f1 by (simp add: lp_passes_def)
      next
        case (Suc j')
        then have "j' < k - 1" using j by simp
        then show ?thesis using kf Suc by (simp add: lp_passes_Suc)
      qed
    qed
    have s: "it + Suc k < maxIterations \<longrightarrow>
            \<not> snd (lp_pass graph nodeIds (lp_passes graph nodeIds (Suc k - 1) c))"
      unfolding km lp_passes_Suc using ks by simp
    have l: "it + Suc k \<le> maxIterations" using kl by simp
    show ?thesis
      by (rule exI[of _ "Suc k"]) (use r f s l in simp)
  qed
qed

text \<open>
  Claim C8. In the deterministic variant of label propagation:

  \<^item> within a pass, a node \<open>n\<close> with neighbours, visited after the nodes \<open>before\<close>, takes the
    smallest, in string order, of the labels most frequent among its neighbours, read from
    the labels as the visits before it left them; the visit changes no other node's label,
    and it raises the flag \<open>changed\<close> exactly when it gives \<open>n\<close> a label it did not have;
  \<^item> a node without neighbours has, when the loop is left, the label it had when the loop
    was entered;
  \<^item> the loop entered below the limit of passes runs \<open>k \<ge> 1\<close> passes, each from the labels
    the one before left; every pass but the last changed a label, and the last one changed
    none unless the limit was reached; in particular, when the first pass changes nothing the
    loop is left after that one pass with the labels as they were, and when it changes a
    label the loop goes on from the labels it left.
\<close>

theorem C8_label_propagation:
  "(getOr [] (g_adj graph) n \<noteq> [] \<longrightarrow>
      map_of (fst (lp_pass graph (before @ [n]) c)) n
        = Some (Min (set (mostFrequent
            (map (getOr [] (fst (lp_pass graph before c))) (getOr [] (g_adj graph) n))))))
   \<and> (other \<noteq> n \<longrightarrow>
      map_of (fst (lp_pass graph (before @ [n]) c)) other
        = map_of (fst (lp_pass graph before c)) other)
   \<and> snd (lp_pass graph (before @ [n]) c)
       = (snd (lp_pass graph before c)
          \<or> map_of (fst (lp_pass graph (before @ [n]) c)) n
              \<noteq> map_of (fst (lp_pass graph before c)) n)
   \<and> lp_pass graph [] c = (c, False)
   \<and> (getOr [] (g_adj graph) lone = [] \<longrightarrow>
      map_of (fst (lp_while graph nodeIds (c, ch, it))) lone = map_of c lone)
   \<and> (it' < maxIterations \<longrightarrow>
      (\<exists>k \<ge> 1. it' + k \<le> maxIterations
         \<and> lp_while graph nodeIds (c, True, it')
             = (lp_passes graph nodeIds k c,
                snd (lp_pass graph nodeIds (lp_passes graph nodeIds (k - 1) c)), it' + k)
         \<and> (\<forall>j < k - 1. snd (lp_pass graph nodeIds (lp_passes graph nodeIds j c)))
         \<and> (it' + k < maxIterations \<longrightarrow>
               \<not> snd (lp_pass graph nodeIds (lp_passes graph nodeIds (k - 1) c)))))
   \<and> (it' < maxIterations \<and> snd (lp_pass graph nodeIds fixedc) = False \<longrightarrow>
      lp_pass graph nodeIds fixedc = (fixedc, False)
      \<and> lp_while graph nodeIds (fixedc, True, it') = (fixedc, False, it' + 1))
   \<and> (it' < maxIterations \<and> snd (lp_pass graph nodeIds c) = True \<longrightarrow>
      lp_while graph nodeIds (c, True, it')
        = lp_while graph nodeIds (fst (lp_pass graph nodeIds c), True, it' + 1))"
proof (intro conjI impI)
  assume "getOr [] (g_adj graph) n \<noteq> []"
  then show "map_of (fst (lp_pass graph (before @ [n]) c)) n
        = Some (Min (set (mostFrequent
            (map (getOr [] (fst (lp_pass graph before c))) (getOr [] (g_adj graph) n)))))"
    unfolding lp_pass_snoc
    using lp_visit_adopts[of graph n "fst (lp_pass graph before c)" "snd (lp_pass graph before c)"]
    by simp
next
  assume "other \<noteq> n"
  then show "map_of (fst (lp_pass graph (before @ [n]) c)) other
        = map_of (fst (lp_pass graph before c)) other"
    unfolding lp_pass_snoc by (simp add: lp_visit_other)
next
  show "snd (lp_pass graph (before @ [n]) c)
       = (snd (lp_pass graph before c)
          \<or> map_of (fst (lp_pass graph (before @ [n]) c)) n
              \<noteq> map_of (fst (lp_pass graph before c)) n)"
    unfolding lp_pass_snoc
    using lp_visit_flag[of graph n "fst (lp_pass graph before c)" "snd (lp_pass graph before c)"]
    by simp
next
  show "lp_pass graph [] c = (c, False)" by (simp add: lp_pass_def)
next
  assume "getOr [] (g_adj graph) lone = []"
  then show "map_of (fst (lp_while graph nodeIds (c, ch, it))) lone = map_of c lone"
    using lp_while_isolated[of graph lone nodeIds "(c, ch, it)"] by simp
next
  assume "it' < maxIterations"
  then show "\<exists>k \<ge> 1. it' + k \<le> maxIterations
         \<and> lp_while graph nodeIds (c, True, it')
             = (lp_passes graph nodeIds k c,
                snd (lp_pass graph nodeIds (lp_passes graph nodeIds (k - 1) c)), it' + k)
         \<and> (\<forall>j < k - 1. snd (lp_pass graph nodeIds (lp_passes graph nodeIds j c)))
         \<and> (it' + k < maxIterations \<longrightarrow>
               \<not> snd (lp_pass graph nodeIds (lp_passes graph nodeIds (k - 1) c)))"
    using lp_while_run[of it' _ graph nodeIds c] by simp
next
  assume a: "it' < maxIterations \<and> snd (lp_pass graph nodeIds fixedc) = False"
  then show p: "lp_pass graph nodeIds fixedc = (fixedc, False)"
    using lp_pass_unchanged by simp
  have "lp_while graph nodeIds (fixedc, False, it' + 1) = (fixedc, False, it' + 1)"
    by (rule lp_while_leave) simp
  then show "lp_while graph nodeIds (fixedc, True, it') = (fixedc, False, it' + 1)"
    using lp_while_step[of it' graph nodeIds fixedc] a p by simp
next
  assume "it' < maxIterations \<and> snd (lp_pass graph nodeIds c) = True"
  then show "lp_while graph nodeIds (c, True, it')
        = lp_while graph nodeIds (fst (lp_pass graph nodeIds c), True, it' + 1)"
    using lp_while_step[of it' graph nodeIds c] by simp
qed

text \<open>
  The star \<open>c \<midarrow> a \<midarrow> b\<close> with the isolated node \<open>z\<close>: the first pass gives \<open>a\<close> and
  \<open>c\<close> the label \<open>b\<close>, the second changes nothing.
\<close>

theorem C8_label_propagation_witness:
  "getOr [] (g_adj g3) ''a'' \<noteq> []
   \<and> map_of (fst (lp_pass g3 ([] @ [''a''])
         [(''a'', ''a''), (''b'', ''b''), (''c'', ''c''), (''z'', ''z'')])) ''a'' = Some ''b''
   \<and> ''b'' \<noteq> ''a''
   \<and> map_of (fst (lp_pass g3 ([] @ [''a''])
         [(''a'', ''a''), (''b'', ''b''), (''c'', ''c''), (''z'', ''z'')])) ''b'' = Some ''b''
   \<and> getOr [] (g_adj g3) ''z'' = []
   \<and> map_of (fst (lp_while g3 [''a'', ''b'', ''c'', ''z'']
         ([(''a'', ''a''), (''b'', ''b''), (''c'', ''c''), (''z'', ''z'')], True, 0))) ''z'' = Some ''z''
   \<and> (0::nat) < maxIterations
   \<and> (\<exists>k \<ge> 1. 0 + k \<le> maxIterations
         \<and> lp_while g3 [''a'', ''b'', ''c'', ''z'']
               ([(''a'', ''a''), (''b'', ''b''), (''c'', ''c''), (''z'', ''z'')], True, 0)
             = (lp_passes g3 [''a'', ''b'', ''c'', ''z''] k
                  [(''a'', ''a''), (''b'', ''b''), (''c'', ''c''), (''z'', ''z'')],
                snd (lp_pass g3 [''a'', ''b'', ''c'', ''z'']
                  (lp_passes g3 [''a'', ''b'', ''c'', ''z''] (k - 1)
                     [(''a'', ''a''), (''b'', ''b''), (''c'', ''c''), (''z'', ''z'')])), 0 + k))
   \<and> snd (lp_pass g3 [''a'', ''b'', ''c'', ''z'']
         [(''a'', ''b''), (''b'', ''b''), (''c'', ''b''), (''z'', ''z'')]) = False
   \<and> lp_while g3 [''a'', ''b'', ''c'', ''z'']
         ([(''a'', ''b''), (''b'', ''b''), (''c'', ''b''), (''z'', ''z'')], True, 0)
       = ([(''a'', ''b''), (''b'', ''b''), (''c'', ''b''), (''z'', ''z'')], False, 0 + 1)
   \<and> snd (lp_pass g3 [''a'', ''b'', ''c'', ''z'']
         [(''a'', ''a''), (''b'', ''b''), (''c'', ''c''), (''z'', ''z'')]) = True
   \<and> lp_while g3 [''a'', ''b'', ''c'', ''z'']
         ([(''a'', ''a''), (''b'', ''b''), (''c'', ''c''), (''z'', ''z'')], True, 0)
       = lp_while g3 [''a'', ''b'', ''c'', ''z'']
           ([(''a'', ''b''), (''b'', ''b''), (''c'', ''b''), (''z'', ''z'')], True, 0 + 1)"
proof -
  let ?c0 = "[(''a'', ''a''), (''b'', ''b''), (''c'', ''c''), (''z'', ''z'')]"
  let ?c1 = "[(''a'', ''b''), (''b'', ''b''), (''c'', ''b''), (''z'', ''z'')]"
  let ?ids = "[''a'', ''b'', ''c'', ''z'']"
  have adj: "g_adj g3 = [(''c'', [''a'']), (''a'', [''c'', ''b'']), (''b'', [''a'']), (''z'', [])]"
    by code_simp
  have h1: "getOr [] (g_adj g3) ''a'' \<noteq> []" by (simp add: adj getOr_def)
  have h2: "getOr [] (g_adj g3) ''z'' = []" by (simp add: adj getOr_def)
  have h3: "snd (lp_pass g3 ?ids ?c1) = False" by code_simp
  have h4: "lp_pass g3 ?ids ?c0 = (?c1, True)" by code_simp
  have h5: "(0::nat) < maxIterations" by (simp add: maxIterations_def)
  have p0: "lp_pass g3 [] ?c0 = (?c0, False)" by (simp add: lp_pass_def)
  have m: "Min (set (mostFrequent (map (getOr [] ?c0) (getOr [] (g_adj g3) ''a'')))) = ''b''"
    by (simp add: adj getOr_def mostFrequent_def)
  have b: "map_of ?c0 ''b'' = Some ''b''" "map_of ?c0 ''z'' = Some ''z''" by simp_all
  note t = C8_label_propagation[where graph = g3 and n = "''a''" and before = "[]"
      and c = ?c0 and other = "''b''" and lone = "''z''" and nodeIds = ?ids and ch = True
      and it = 0 and it' = 0 and fixedc = ?c1]
  have t1: "map_of (fst (lp_pass g3 ([] @ [''a'']) ?c0)) ''a'' = Some ''b''"
    using t h1 m p0 by simp
  have t2: "map_of (fst (lp_pass g3 ([] @ [''a'']) ?c0)) ''b'' = Some ''b''"
    using t p0 b by simp
  have t5: "map_of (fst (lp_while g3 ?ids (?c0, True, 0))) ''z'' = Some ''z''"
    using t h2 b by simp
  have t6: "\<exists>k \<ge> 1. 0 + k \<le> maxIterations
         \<and> lp_while g3 ?ids (?c0, True, 0)
             = (lp_passes g3 ?ids k ?c0,
                snd (lp_pass g3 ?ids (lp_passes g3 ?ids (k - 1) ?c0)), 0 + k)"
    using t h5 by blast
  have t7: "lp_while g3 ?ids (?c1, True, 0) = (?c1, False, 0 + 1)"
    using t h3 h5 by blast
  have t8: "lp_while g3 ?ids (?c0, True, 0) = lp_while g3 ?ids (?c1, True, 0 + 1)"
    using t h4 h5 by simp
  show ?thesis
    using h1 t1 t2 h2 t5 h5 t6 h3 t7 h4 t8 by simp
qed

section \<open>Louvain on a path of four nodes\<close>


lemma louvain_path4_hierarchy:
  "louvain_loop (\<lambda>x. x) (newGraph path4) 1
     (newPartition (g_nodes (newGraph path4)) (g_degrees (newGraph path4)) (g_m (newGraph path4))) []
   = Some [[(''a'', 2), (''b'', 2), (''c'', 3), (''d'', 3)], [(''0'', 1), (''1'', 1)]]"
proof -
  define G where "G = newGraph path4"
  define P0 where "P0 = newPartition (g_nodes G) (g_degrees G) (g_m G)"
  define P1 where "P1 = \<lparr>nodeToCommunity = [(''a'', 1), (''b'', 2), (''c'', 3), (''d'', 3)],
     communities = [(1, [''a'']), (2, [''b'']), (3, [''d'', ''c''])],
     sigma_tot = [(0, 0), (1, 1), (2, 2), (3, 3)], m2 = 6\<rparr>"
  define P2 where "P2 = \<lparr>nodeToCommunity = [(''a'', 2), (''b'', 2), (''c'', 3), (''d'', 3)],
     communities = [(2, [''b'', ''a'']), (3, [''d'', ''c''])],
     sigma_tot = [(0, 0), (1, 0), (2, 3), (3, 3)], m2 = 6\<rparr>"
  define G1 where "G1 = newGraph (aggregateCommunities G P2)"
  define Q0 where "Q0 = newPartition (g_nodes G1) (g_degrees G1) (g_m G1)"
  define Q1 where "Q1 = \<lparr>nodeToCommunity = [(''0'', 1), (''1'', 1)],
     communities = [(1, [''1'', ''0''])], sigma_tot = [(0, 0), (1, 2)], m2 = 2\<rparr>"
  have pass0: "om_pass (\<lambda>x. x) G 1 P0 = (P1, True)"
    unfolding G_def P0_def P1_def path4_def by code_simp
  have pass1: "om_pass (\<lambda>x. x) G 1 P1 = (P2, True)"
    unfolding G_def P1_def P2_def path4_def by code_simp
  have pass2: "om_pass (\<lambda>x. x) G 1 P2 = (P2, False)"
    unfolding G_def P2_def path4_def by code_simp
  have "optimizeModularity (\<lambda>x. x) G 1 P2 = Some P2"
    by (subst optimizeModularity.simps) (simp add: pass2)
  then have "optimizeModularity (\<lambda>x. x) G 1 P1 = Some P2"
    by (subst optimizeModularity.simps) (simp add: pass1)
  then have opt0: "optimizeModularity (\<lambda>x. x) G 1 P0 = Some P2"
    by (subst optimizeModularity.simps) (simp add: pass0)
  have qpass0: "om_pass (\<lambda>x. x) G1 1 Q0 = (Q1, True)"
    unfolding G1_def Q0_def Q1_def G_def P2_def path4_def by code_simp
  have qpass1: "om_pass (\<lambda>x. x) G1 1 Q1 = (Q1, False)"
    unfolding G1_def Q1_def G_def P2_def path4_def by code_simp
  have "optimizeModularity (\<lambda>x. x) G1 1 Q1 = Some Q1"
    by (subst optimizeModularity.simps) (simp add: qpass1)
  then have opt1: "optimizeModularity (\<lambda>x. x) G1 1 Q0 = Some Q1"
    by (subst optimizeModularity.simps) (simp add: qpass0)
  have n0: "length (communities P2) \<noteq> length (g_nodes G)"
    unfolding P2_def G_def path4_def by code_simp
  have l0: "links (aggregateCommunities G P2) \<noteq> []"
    unfolding P2_def G_def path4_def by code_simp
  have n1: "length (communities Q1) \<noteq> length (g_nodes G1)"
    unfolding G1_def Q1_def G_def P2_def path4_def by code_simp
  have l1: "links (aggregateCommunities G1 Q1) = []"
    unfolding G1_def Q1_def G_def P2_def path4_def by code_simp
  have level1: "louvain_loop (\<lambda>x. x) G1 1 Q0 [nodeToCommunity P2] = Some [nodeToCommunity P2, nodeToCommunity Q1]"
    by (subst louvain_loop.simps) (simp add: opt1 n1 l1 Let_def)
  have "louvain_loop (\<lambda>x. x) G 1 P0 [] = Some [nodeToCommunity P2, nodeToCommunity Q1]"
    apply (subst louvain_loop.simps)
    apply (simp add: opt0 n0 l0 Let_def)
    apply (fold G1_def)
    apply (fold Q0_def)
    apply (rule level1)
    done
  then show ?thesis
    by (simp add: G_def P0_def P2_def Q1_def)
qed

text \<open>
  C2. Every detection algorithm is to return exactly one entry for every node of the input
  graph. On the path \<open>a \<midarrow> b \<midarrow> c \<midarrow> d\<close> with resolution 1, the first level of Louvain
  ends with the communities 2 and 3, the aggregated graph names them \<open>0\<close> and \<open>1\<close>, the
  mapping back looks for the keys \<open>2\<close> and \<open>3\<close> in the second level, finds neither, and drops
  every node: the returned partition is empty. The run is in exact arithmetic. Every gain
  it compares with 0 is either 0 itself, computed as \<open>1 - 6 / 6\<close> or \<open>1 - 2 / 2\<close>, or at
  least \<open>1 / 3\<close> away from 0, and no two gains that are not 0 are compared.
\<close>

theorem C2_louvain_drops_nodes: "runLouvain (\<lambda>x. x) (newGraph path4) 1 = Some []"
proof -
  have m: "g_m (newGraph path4) \<noteq> 0"
    unfolding path4_def by code_simp
  have f: "renumber (finalPartition
            [[(''a'', 2), (''b'', 2), (''c'', 3), (''d'', 3)], [(''0'', 1), (''1'', 1)]]) = []"
    by code_simp
  show ?thesis
    unfolding runLouvain_def louvain_path4_hierarchy using m f by simp
qed

section \<open>Louvain aggregation\<close>

subsection \<open>Decimal strings and keys\<close>

lemma digit_in: "d < 10 \<Longrightarrow> digit d \<in> set ''0123456789''"
  unfolding digit_def by (rule nth_mem) simp

lemma toString_digits: "set (toString n) \<subseteq> set ''0123456789''"
proof (induction n rule: toString.induct)
  case (1 n)
  show ?case
  proof (cases "n < 10")
    case True
    then show ?thesis
      using digit_in[of n] by (subst toString.simps) simp
  next
    case False
    then show ?thesis
      using "1.IH" digit_in[of "n mod 10"] by (subst toString.simps) simp
  qed
qed

lemma toString_no_bar: "CHR ''|'' \<notin> set (toString n)"
  using toString_digits[of n] by auto

lemma toString_nonempty: "toString n \<noteq> []"
  by (subst toString.simps) simp

lemma toString_not_undefined: "toString n \<noteq> ''undefined''"
proof
  assume "toString n = ''undefined''"
  then have "CHR ''u'' \<in> set (toString n)" by simp
  then show False using toString_digits[of n] by auto
qed

lemma digit_inj: "a < 10 \<Longrightarrow> b < 10 \<Longrightarrow> digit a = digit b \<Longrightarrow> a = b"
proof -
  assume "a < 10" "b < 10" "digit a = digit b"
  moreover have "distinct ''0123456789''" by simp
  ultimately show "a = b"
    unfolding digit_def by (simp add: nth_eq_iff_index_eq)
qed

lemma toString_inj: "toString a = toString b \<Longrightarrow> a = b"
proof (induction a arbitrary: b rule: toString.induct)
  case (1 a)
  show ?case
  proof (cases "a < 10")
    case True
    then have ta: "toString a = [digit a]" by (subst toString.simps) simp
    show ?thesis
    proof (cases "b < 10")
      case b: True
      then have "toString b = [digit b]" by (subst toString.simps) simp
      then show ?thesis using ta "1.prems" True b digit_inj by simp
    next
      case b: False
      then have "toString b = toString (b div 10) @ [digit (b mod 10)]"
        by (subst toString.simps) simp
      then have "length (toString b) \<ge> 2"
        using toString_nonempty[of "b div 10"]
        by (cases "toString (b div 10)") auto
      then show ?thesis using ta "1.prems" by simp
    qed
  next
    case False
    then have ta: "toString a = toString (a div 10) @ [digit (a mod 10)]"
      by (subst toString.simps) simp
    show ?thesis
    proof (cases "b < 10")
      case b: True
      then have "toString b = [digit b]" by (subst toString.simps) simp
      moreover have "length (toString a) \<ge> 2"
        using ta toString_nonempty[of "a div 10"]
        by (cases "toString (a div 10)") auto
      ultimately show ?thesis using "1.prems" by simp
    next
      case b: False
      then have tb: "toString b = toString (b div 10) @ [digit (b mod 10)]"
        by (subst toString.simps) simp
      from ta tb "1.prems" have e: "toString (a div 10) = toString (b div 10)"
        "digit (a mod 10) = digit (b mod 10)" by simp_all
      have "a div 10 = b div 10" using "1.IH"[OF False e(1)] .
      moreover have "a mod 10 = b mod 10" using digit_inj[OF _ _ e(2)] by simp
      ultimately show ?thesis by (metis div_mult_mod_eq)
    qed
  qed
qed

lemma splitKey_linkKey:
  "CHR ''|'' \<notin> set a \<Longrightarrow> CHR ''|'' \<notin> set b \<Longrightarrow> splitKey (linkKey a b) = (a, b)"
proof -
  assume a: "CHR ''|'' \<notin> set a" and b: "CHR ''|'' \<notin> set b"
  let ?P = "\<lambda>ch. ch \<noteq> CHR ''|''"
  have pa: "\<And>x. x \<in> set a \<Longrightarrow> ?P x" using a by auto
  have pb: "\<forall>x \<in> set b. ?P x" using b by auto
  have 1: "takeWhile ?P (a @ CHR ''|'' # b) = a"
    using pa by (simp add: takeWhile_append2)
  have 2: "dropWhile ?P (a @ CHR ''|'' # b) = CHR ''|'' # b"
    using pa by (simp add: dropWhile_append2)
  have 3: "takeWhile ?P b = b"
    using pb by (simp add: takeWhile_eq_all_conv)
  show ?thesis
    unfolding splitKey_def linkKey_def by (simp add: 1 2 3)
qed

lemma update_fresh: "k \<notin> fst ` set al \<Longrightarrow> AList.update k v al = al @ [(k, v)]"
  by (induction al) auto

lemma wsum_incr: "wsum Q (incr k cw) = wsum Q cw + (if Q k then 1 else 0)"
proof (induction cw)
  case Nil
  then show ?case by (simp add: wsum_def incr_def getOr_def)
next
  case (Cons x cw)
  obtain k' w' where x: "x = (k', w')" by (cases x)
  show ?case
  proof (cases "k' = k")
    case True
    then show ?thesis by (simp add: x wsum_def incr_def getOr_def)
  next
    case False
    then have "incr k (x # cw) = x # incr k cw"
      by (simp add: x incr_def getOr_def)
    then show ?thesis using Cons.IH by (simp add: wsum_def)
  qed
qed

lemma filter_replicate_links:
  "length (filter P (concat (map (\<lambda>(key, weight). replicate weight (f key)) cw)))
   = wsum (\<lambda>k. P (f k)) cw"
  by (induction cw) (auto simp: wsum_def)

lemma wsum_fold:
  "wsum Q (fold (\<lambda>e cw. if crossing e then incr (kf e) cw else cw) es cw0)
   = wsum Q cw0 + length (filter (\<lambda>e. crossing e \<and> Q (kf e)) es)"
  by (induction es arbitrary: cw0) (auto simp: wsum_incr)

lemma aggregate_links_count:
  "length (filter P (links (aggregateCommunities graph part)))
   = length (filter (\<lambda>e. comm part (source e) \<noteq> comm part (target e)
                          \<and> P (keyLink (edgeKey part e))) (g_edges graph))"
proof -
  have "links (aggregateCommunities graph part)
        = concat (map (\<lambda>(key, weight). replicate weight (keyLink key)) (communityWeights graph part))"
    by (simp add: aggregateCommunities_def Let_def keyLink_def)
  then have "length (filter P (links (aggregateCommunities graph part)))
        = wsum (\<lambda>k. P (keyLink k)) (communityWeights graph part)"
    by (simp add: filter_replicate_links)
  also have "\<dots> = wsum (\<lambda>k. P (keyLink k)) []
        + length (filter (\<lambda>e. map_of (nodeToCommunity part) (source e)
                                \<noteq> map_of (nodeToCommunity part) (target e)
                              \<and> P (keyLink (edgeKey part e))) (g_edges graph))"
    unfolding communityWeights_def by (rule wsum_fold)
  finally show ?thesis by (simp add: wsum_def comm_def)
qed

lemma communityMap_fold:
  "distinct ks \<Longrightarrow> set ks \<inter> fst ` set cm0 = {} \<Longrightarrow>
   fold (\<lambda>commId (cm, counter). (AList.update commId (toString counter) cm, counter + 1)) ks (cm0, k0)
   = (cm0 @ zip ks (map toString [k0 ..< k0 + length ks]), k0 + length ks)"
proof (induction ks arbitrary: cm0 k0)
  case Nil
  then show ?case by simp
next
  case (Cons c ks)
  have fresh: "c \<notin> fst ` set cm0" using Cons.prems by auto
  have u: "AList.update c (toString k0) cm0 = cm0 @ [(c, toString k0)]"
    using fresh by (rule update_fresh)
  have d: "distinct ks" using Cons.prems by simp
  have disj: "set ks \<inter> fst ` set (cm0 @ [(c, toString k0)]) = {}"
    using Cons.prems by auto
  have up: "[k0 ..< k0 + length (c # ks)] = k0 # [Suc k0 ..< Suc k0 + length ks]"
    by (subst upt_conv_Cons) simp_all
  let ?step = "\<lambda>commId (cm, counter). (AList.update commId (toString counter) cm, counter + 1)"
  have "fold ?step (c # ks) (cm0, k0) = fold ?step ks (cm0 @ [(c, toString k0)], Suc k0)"
    by (simp add: u)
  also have "\<dots> = ((cm0 @ [(c, toString k0)]) @ zip ks (map toString [Suc k0 ..< Suc k0 + length ks]),
                      Suc k0 + length ks)"
    by (rule Cons.IH[OF d disj])
  also have "\<dots> = (cm0 @ zip (c # ks) (map toString [k0 ..< k0 + length (c # ks)]),
                      k0 + length (c # ks))"
    unfolding up by simp
  finally show ?case .
qed

lemma communityMap_zip:
  "distinct (map fst (communities part)) \<Longrightarrow>
   communityMap part = zip (map fst (communities part))
                           (map toString [0 ..< length (communities part)])"
  unfolding communityMap_def
  using communityMap_fold[of "map fst (communities part)" "[]" 0] by simp

lemma communityMap_inj:
  assumes d: "distinct (map fst (communities part))"
    and 1: "map_of (communityMap part) c1 = Some s"
    and 2: "map_of (communityMap part) c2 = Some s"
  shows "c1 = c2"
proof -
  let ?ks = "map fst (communities part)"
  let ?vs = "map toString [0 ..< length (communities part)]"
  have len: "length ?ks = length ?vs" by simp
  have z: "communityMap part = zip ?ks ?vs" using d by (rule communityMap_zip)
  from 1 z have "(c1, s) \<in> set (zip ?ks ?vs)" by (auto dest: map_of_SomeD)
  then obtain i where i: "i < length ?ks" "?ks ! i = c1" "?vs ! i = s"
    using len by (auto simp: set_zip)
  from 2 z have "(c2, s) \<in> set (zip ?ks ?vs)" by (auto dest: map_of_SomeD)
  then obtain j where j: "j < length ?ks" "?ks ! j = c2" "?vs ! j = s"
    using len by (auto simp: set_zip)
  from i j have "toString i = toString j" by simp
  then have "i = j" by (rule toString_inj)
  then show ?thesis using i j by simp
qed

lemma communityMap_dom:
  assumes d: "distinct (map fst (communities part))"
    and c: "c \<in> fst ` set (communities part)"
  shows "\<exists>k. map_of (communityMap part) c = Some (toString k)"
proof -
  let ?ks = "map fst (communities part)"
  let ?vs = "map toString [0 ..< length (communities part)]"
  have z: "communityMap part = zip ?ks ?vs" using d by (rule communityMap_zip)
  from c obtain i where i: "i < length ?ks" "?ks ! i = c"
    by (metis in_set_conv_nth set_map)
  have "map_of (zip ?ks ?vs) (?ks ! i) = Some (?vs ! i)"
    using d i by (intro map_of_zip_nth) simp_all
  then show ?thesis using i z by auto
qed

lemma communityMap_val:
  assumes d: "distinct (map fst (communities part))"
    and 1: "map_of (communityMap part) c = Some s"
  shows "\<exists>k. s = toString k"
proof -
  let ?ks = "map fst (communities part)"
  let ?vs = "map toString [0 ..< length (communities part)]"
  have z: "communityMap part = zip ?ks ?vs" using d by (rule communityMap_zip)
  from 1 z have "(c, s) \<in> set (zip ?ks ?vs)" by (auto dest: map_of_SomeD)
  then have "s \<in> set ?vs" by (rule set_zip_rightD)
  then show ?thesis by auto
qed

lemma undefined_no_bar: "CHR ''|'' \<notin> set ''undefined''"
  by simp

lemma str_newComm_no_bar:
  assumes "distinct (map fst (communities part))"
  shows "CHR ''|'' \<notin> set (str (newComm part co))"
proof (cases "newComm part co")
  case None
  then show ?thesis by (simp add: str_def)
next
  case (Some s)
  then obtain c where "map_of (communityMap part) c = Some s"
    by (auto simp: newComm_def split: option.splits)
  then obtain k where "s = toString k"
    using communityMap_val[OF assms] by blast
  then show ?thesis using Some toString_no_bar by (simp add: str_def)
qed

lemma keyLink_edgeKey:
  assumes "distinct (map fst (communities part))"
  shows "keyLink (edgeKey part e) =
     (let a = str (newComm part (comm part (source e)));
          b = str (newComm part (comm part (target e)))
      in if jsLess (newComm part (comm part (source e))) (newComm part (comm part (target e)))
         then \<lparr>source = a, target = b\<rparr> else \<lparr>source = b, target = a\<rparr>)"
  using str_newComm_no_bar[OF assms]
  by (simp add: keyLink_def edgeKey_def Let_def comm_def splitKey_linkKey)

lemma ok_member:
  assumes "partition_ok part" "comm part x = Some c"
  shows "c \<in> fst ` set (communities part)"
proof -
  from assms(2) have "(x, c) \<in> set (nodeToCommunity part)"
    by (auto simp: comm_def dest: map_of_SomeD)
  then have "x \<in> set (getOr [] (communities part) c)"
    using assms(1) by (auto simp: partition_ok_def list_all_iff)
  then have "map_of (communities part) c \<noteq> None"
    by (cases "map_of (communities part) c") (auto simp: getOr_def)
  then show ?thesis by (auto dest!: map_of_SomeD intro: rev_image_eqI)
qed

lemma ok_newComm:
  assumes "partition_ok part" "comm part x = Some c"
  shows "\<exists>k. newComm part (comm part x) = Some (toString k)
             \<and> map_of (communityMap part) c = Some (toString k)"
  using communityMap_dom[of part c] ok_member[OF assms] assms
  by (auto simp: newComm_def partition_ok_def)

lemma str_newComm_neq:
  assumes ok: "partition_ok part" and ne: "comm part x \<noteq> comm part y"
  shows "str (newComm part (comm part x)) \<noteq> str (newComm part (comm part y))"
proof -
  have d: "distinct (map fst (communities part))" using ok by (simp add: partition_ok_def)
  show ?thesis
  proof (cases "comm part x")
    case None
    then obtain c where y: "comm part y = Some c" using ne by (cases "comm part y") auto
    from ok_newComm[OF ok y] obtain k where "newComm part (comm part y) = Some (toString k)"
      by blast
    then show ?thesis using None toString_not_undefined[of k]
      by (auto simp: str_def newComm_def)
  next
    case (Some a)
    from ok_newComm[OF ok Some] obtain k where
      k: "newComm part (comm part x) = Some (toString k)"
         "map_of (communityMap part) a = Some (toString k)"
      by blast
    show ?thesis
    proof (cases "comm part y")
      case None
      then show ?thesis using k toString_not_undefined[of k]
        by (auto simp: str_def newComm_def)
    next
      case y: (Some b)
      from ok_newComm[OF ok y] obtain j where
        j: "newComm part (comm part y) = Some (toString j)"
           "map_of (communityMap part) b = Some (toString j)"
        by blast
      have "a \<noteq> b" using ne Some y by simp
      then have "toString k \<noteq> toString j"
        using communityMap_inj[OF d k(2)] j(2) by auto
      then show ?thesis using k j by (simp add: str_def)
    qed
  qed
qed

lemma aggregate_no_self_edges:
  assumes ok: "partition_ok part"
  shows "\<forall>l \<in> set (links (aggregateCommunities graph part)). source l \<noteq> target l"
proof -
  have d: "distinct (map fst (communities part))" using ok by (simp add: partition_ok_def)
  have "filter (\<lambda>e. comm part (source e) \<noteq> comm part (target e)
            \<and> source (keyLink (edgeKey part e)) = target (keyLink (edgeKey part e))) (g_edges graph) = []"
    using str_newComm_neq[OF ok]
    by (auto simp: filter_empty_conv keyLink_edgeKey[OF d] Let_def)
  then have "length (filter (\<lambda>l. source l = target l) (links (aggregateCommunities graph part))) = 0"
    by (simp add: aggregate_links_count)
  then show ?thesis by (auto simp: filter_empty_conv)
qed

lemma newComm_preimage:
  assumes d: "distinct (map fst (communities part))"
    and i: "map_of (communityMap part) c = Some s"
    and n: "newComm part (comm part x) = Some s"
  shows "comm part x = Some c"
proof -
  from n obtain a where a: "comm part x = Some a" "map_of (communityMap part) a = Some s"
    by (auto simp: newComm_def split: option.splits)
  then have "a = c" using communityMap_inj[OF d a(2) i] by simp
  then show ?thesis using a by simp
qed

lemma aggregate_multiplicity:
  assumes ok: "partition_ok part" and ne: "c1 \<noteq> c2"
    and i1: "map_of (communityMap part) c1 = Some i1"
    and i2: "map_of (communityMap part) c2 = Some i2"
  shows "length (filter (\<lambda>l. {source l, target l} = {i1, i2}) (links (aggregateCommunities graph part)))
       = length (filter (\<lambda>e. {comm part (source e), comm part (target e)} = {Some c1, Some c2})
                  (g_edges graph))"
proof -
  have d: "distinct (map fst (communities part))" using ok by (simp add: partition_ok_def)
  obtain k1 k2 where k: "i1 = toString k1" "i2 = toString k2"
    using communityMap_val[OF d i1] communityMap_val[OF d i2] by blast
  have ine: "i1 \<noteq> i2" using communityMap_inj[OF d i1] i2 ne by auto
  have "\<And>e::Link. (comm part (source e) \<noteq> comm part (target e)
              \<and> {source (keyLink (edgeKey part e)), target (keyLink (edgeKey part e))} = {i1, i2})
           = ({comm part (source e), comm part (target e)} = {Some c1, Some c2})"
  proof -
    fix e :: Link
    define na where "na = newComm part (comm part (source e))"
    define nb where "nb = newComm part (comm part (target e))"
    have ends: "{source (keyLink (edgeKey part e)), target (keyLink (edgeKey part e))} = {str na, str nb}"
      by (auto simp: keyLink_edgeKey[OF d] Let_def na_def nb_def)
    show "(comm part (source e) \<noteq> comm part (target e)
              \<and> {source (keyLink (edgeKey part e)), target (keyLink (edgeKey part e))} = {i1, i2})
           = ({comm part (source e), comm part (target e)} = {Some c1, Some c2})"
    proof
      assume a: "comm part (source e) \<noteq> comm part (target e)
              \<and> {source (keyLink (edgeKey part e)), target (keyLink (edgeKey part e))} = {i1, i2}"
      then have s: "{str na, str nb} = {i1, i2}" using ends by simp
      have und: "i1 \<noteq> ''undefined''" "i2 \<noteq> ''undefined''"
        using k toString_not_undefined by auto
      have some: "\<And>n i. str n = i \<Longrightarrow> i \<noteq> ''undefined'' \<Longrightarrow> n = Some i"
        by (auto simp: str_def split: option.splits)
      from s consider "str na = i1 \<and> str nb = i2" | "str na = i2 \<and> str nb = i1"
        by (auto simp: doubleton_eq_iff)
      then show "{comm part (source e), comm part (target e)} = {Some c1, Some c2}"
      proof cases
        case 1
        then have "na = Some i1" "nb = Some i2" using some und by auto
        then have "comm part (source e) = Some c1" "comm part (target e) = Some c2"
          using newComm_preimage[OF d i1] newComm_preimage[OF d i2] by (auto simp: na_def nb_def)
        then show ?thesis by simp
      next
        case 2
        then have "na = Some i2" "nb = Some i1" using some und by auto
        then have "comm part (source e) = Some c2" "comm part (target e) = Some c1"
          using newComm_preimage[OF d i1] newComm_preimage[OF d i2] by (auto simp: na_def nb_def)
        then show ?thesis by auto
      qed
    next
      assume "{comm part (source e), comm part (target e)} = {Some c1, Some c2}"
      then consider "comm part (source e) = Some c1 \<and> comm part (target e) = Some c2"
        | "comm part (source e) = Some c2 \<and> comm part (target e) = Some c1"
        by (auto simp: doubleton_eq_iff)
      then show "comm part (source e) \<noteq> comm part (target e)
              \<and> {source (keyLink (edgeKey part e)), target (keyLink (edgeKey part e))} = {i1, i2}"
      proof cases
        case 1
        then have "na = Some i1" "nb = Some i2"
          using i1 i2 by (auto simp: na_def nb_def newComm_def)
        then show ?thesis using 1 ne ends by (auto simp: str_def)
      next
        case 2
        then have "na = Some i2" "nb = Some i1"
          using i1 i2 by (auto simp: na_def nb_def newComm_def)
        then show ?thesis using 2 ne ends by (auto simp: str_def)
      qed
    qed
  qed
  then show ?thesis
    by (simp add: aggregate_links_count)
qed

lemma getOr_member:
  "(x \<in> set (getOr [] m c)) = (\<exists>ms. map_of m c = Some ms \<and> x \<in> set ms)"
  by (cases "map_of m c") (auto simp: getOr_def)

lemma partition_ok_iff:
  "partition_ok part \<longleftrightarrow>
     distinct (map fst (communities part)) \<and> distinct (map fst (nodeToCommunity part))
     \<and> (\<forall>x c. map_of (nodeToCommunity part) x = Some c \<longrightarrow>
            (\<exists>ms. map_of (communities part) c = Some ms \<and> x \<in> set ms))"
proof (cases "distinct (map fst (nodeToCommunity part))")
  case True
  then have eq: "\<And>x c. (map_of (nodeToCommunity part) x = Some c) = ((x, c) \<in> set (nodeToCommunity part))"
    by simp
  have "list_all (\<lambda>(n, c). n \<in> set (getOr [] (communities part) c)) (nodeToCommunity part)
      = (\<forall>x c. (x, c) \<in> set (nodeToCommunity part) \<longrightarrow> x \<in> set (getOr [] (communities part) c))"
    unfolding list_all_iff by blast
  then show ?thesis
    unfolding partition_ok_def eq getOr_member by simp
next
  case False
  then show ?thesis by (simp add: partition_ok_def)
qed

lemma moveNode_ok:
  assumes "partition_ok part"
  shows "partition_ok (moveNode graph n c part)"
proof -
  define oldComm where "oldComm = getOr 0 (nodeToCommunity part) n"
  define cs1 where "cs1 = AList.update oldComm (removeAll n (getOr [] (communities part) oldComm)) (communities part)"
  define cs2 where "cs2 = (if length (getOr [] cs1 oldComm) = 0 then AList.delete oldComm cs1 else cs1)"
  define cs3 where "cs3 = AList.update c (add n (getOr [] cs2 c)) cs2"
  have comms: "communities (moveNode graph n c part) = cs3"
    by (simp add: moveNode_def Let_def cs3_def cs2_def cs1_def oldComm_def)
  have n2c: "nodeToCommunity (moveNode graph n c part) = AList.update n c (nodeToCommunity part)"
    by (simp add: moveNode_def Let_def)
  from assms have d: "distinct (map fst (communities part))" "distinct (map fst (nodeToCommunity part))"
    and mem: "\<And>x k. map_of (nodeToCommunity part) x = Some k \<Longrightarrow>
            \<exists>ms. map_of (communities part) k = Some ms \<and> x \<in> set ms"
    by (auto simp: partition_ok_iff)
  have d1: "distinct (map fst cs1)" unfolding cs1_def using d(1) by (rule distinct_update)
  have d2: "distinct (map fst cs2)" unfolding cs2_def using d1 by (simp add: distinct_delete)
  have d3: "distinct (map fst cs3)" unfolding cs3_def using d2 by (rule distinct_update)
  have m1: "map_of cs1 = (map_of (communities part))(oldComm \<mapsto> removeAll n (getOr [] (communities part) oldComm))"
    by (simp add: cs1_def update_conv')
  have g1: "getOr [] cs1 oldComm = removeAll n (getOr [] (communities part) oldComm)"
    by (simp add: getOr_def m1)
  have m2: "map_of cs2 = (if removeAll n (getOr [] (communities part) oldComm) = []
                then (map_of cs1)(oldComm := None) else map_of cs1)"
    by (simp add: cs2_def g1 delete_conv')
  have m3: "map_of cs3 = (map_of cs2)(c \<mapsto> add n (getOr [] cs2 c))"
    by (simp add: cs3_def update_conv')
  have "\<And>x k. map_of (AList.update n c (nodeToCommunity part)) x = Some k \<Longrightarrow>
            \<exists>ms. map_of cs3 k = Some ms \<and> x \<in> set ms"
  proof -
    fix x k assume a: "map_of (AList.update n c (nodeToCommunity part)) x = Some k"
    show "\<exists>ms. map_of cs3 k = Some ms \<and> x \<in> set ms"
    proof (cases "x = n")
      case True
      then have "k = c" using a by (simp add: update_conv')
      then show ?thesis using True by (simp add: m3 add_def)
    next
      case False
      then have "map_of (nodeToCommunity part) x = Some k" using a by (simp add: update_conv')
      from mem[OF this] obtain ms where ms: "map_of (communities part) k = Some ms" "x \<in> set ms"
        by blast
      have "\<exists>ms'. map_of cs2 k = Some ms' \<and> x \<in> set ms'"
      proof (cases "k = oldComm")
        case True
        then have x: "x \<in> set (removeAll n (getOr [] (communities part) oldComm))"
          using ms False by (simp add: getOr_def)
        have "removeAll n (getOr [] (communities part) oldComm) \<noteq> []"
          using ms False True
          by (auto simp: removeAll_filter_not_eq filter_empty_conv getOr_def)
        then show ?thesis using True x by (simp add: m2 m1)
      next
        case False
        then show ?thesis using ms by (auto simp: m2 m1)
      qed
      then obtain ms' where ms': "map_of cs2 k = Some ms'" "x \<in> set ms'" by blast
      show ?thesis
      proof (cases "k = c")
        case True
        then show ?thesis using ms' by (simp add: m3 getOr_def add_def)
      next
        case False
        then show ?thesis using ms' by (simp add: m3)
      qed
    qed
  qed
  then show ?thesis
    unfolding partition_ok_iff comms n2c using d3 d(2) by (auto simp: distinct_update)
qed

lemma om_visit_ok:
  "partition_ok (fst s) \<Longrightarrow> partition_ok (fst (om_visit rnd graph resolution n s))"
  by (cases s) (auto simp: om_visit_def Let_def moveNode_ok)

lemma om_fold_ok:
  "partition_ok (fst s) \<Longrightarrow> partition_ok (fst (fold (om_visit rnd graph resolution) ns s))"
  by (induction ns arbitrary: s) (auto simp: om_visit_ok)

lemma om_pass_ok:
  "partition_ok part \<Longrightarrow> partition_ok (fst (om_pass rnd graph resolution part))"
  unfolding om_pass_def using om_fold_ok[of "(part, False)"] by simp

lemma optimizeModularity_ok:
  assumes run: "optimizeModularity rnd graph resolution part = Some part'"
  shows "partition_ok part \<longrightarrow> partition_ok part'"
proof (rule optimizeModularity.raw_induct
         [where P = "\<lambda>rd g r p y. partition_ok p \<longrightarrow> partition_ok y", OF _ run])
  fix f rd g r p y
  assume IH: "\<And>rd g r p y. f rd g r p = Some y \<Longrightarrow> partition_ok p \<longrightarrow> partition_ok y"
    and body: "(case om_pass rd g r p of
                  (part', improvement) \<Rightarrow> if improvement then f rd g r part' else Some part') = Some y"
  show "partition_ok p \<longrightarrow> partition_ok y"
  proof
    assume ok: "partition_ok p"
    obtain p' imp where p: "om_pass rd g r p = (p', imp)"
      by (cases "om_pass rd g r p")
    have ok': "partition_ok p'" using om_pass_ok[OF ok, of rd g r] p by simp
    show "partition_ok y"
    proof (cases imp)
      case True
      then have "f rd g r p' = Some y" using body p by simp
      then show ?thesis using IH ok' by blast
    next
      case False
      then show ?thesis using body p ok' by simp
    qed
  qed
qed

lemma newPartition_fold_ok:
  assumes "distinct (map fst (communities p))" "distinct (map fst (nodeToCommunity p))"
    and "\<forall>x c. map_of (nodeToCommunity p) x = Some c \<longrightarrow>
            c < k \<and> (\<exists>ms. map_of (communities p) c = Some ms \<and> x \<in> set ms)"
  shows "partition_ok (fst (fold (\<lambda>n (p, communityId).
            (p\<lparr>nodeToCommunity := AList.update n communityId (nodeToCommunity p),
               communities := AList.update communityId [n] (communities p),
               sigma_tot := AList.update communityId (int (getOr 0 degrees n)) (sigma_tot p)\<rparr>,
             communityId + 1)) ns (p, k)))"
  using assms
proof (induction ns arbitrary: p k)
  case Nil
  then show ?case by (auto simp: partition_ok_iff)
next
  case (Cons n ns)
  let ?p = "p\<lparr>nodeToCommunity := AList.update n k (nodeToCommunity p),
               communities := AList.update k [n] (communities p),
               sigma_tot := AList.update k (int (getOr 0 degrees n)) (sigma_tot p)\<rparr>"
  have 1: "distinct (map fst (communities ?p))"
    using Cons.prems(1) by (simp add: distinct_update)
  have 2: "distinct (map fst (nodeToCommunity ?p))"
    using Cons.prems(2) by (simp add: distinct_update)
  have 3: "\<forall>x c. map_of (nodeToCommunity ?p) x = Some c \<longrightarrow>
            c < k + 1 \<and> (\<exists>ms. map_of (communities ?p) c = Some ms \<and> x \<in> set ms)"
  proof (intro allI impI)
    fix x c assume a: "map_of (nodeToCommunity ?p) x = Some c"
    show "c < k + 1 \<and> (\<exists>ms. map_of (communities ?p) c = Some ms \<and> x \<in> set ms)"
    proof (cases "x = n")
      case True
      then have "c = k" using a by (simp add: update_conv')
      then show ?thesis using True by (simp add: update_conv')
    next
      case False
      then have "map_of (nodeToCommunity p) x = Some c" using a by (simp add: update_conv')
      then have "c < k \<and> (\<exists>ms. map_of (communities p) c = Some ms \<and> x \<in> set ms)"
        using Cons.prems(3) by blast
      then show ?thesis by (auto simp: update_conv')
    qed
  qed
  show ?case
    using Cons.IH[OF 1 2 3] by simp
qed

lemma newPartition_ok: "partition_ok (newPartition ns degrees m)"
  unfolding newPartition_def
  by (rule newPartition_fold_ok) simp_all

subsection \<open>Second variant\<close>

lemma communityWeights_v2_fold:
  "fold (\<lambda>edge acc. case acc of
             Inl e \<Rightarrow> Inl e
           | Inr cw \<Rightarrow> (case edgeKey_v2 part edge of
                         Inl e \<Rightarrow> Inl e
                       | Inr key \<Rightarrow> Inr (incr key cw))) es (Inr cw0) = Inr cw
   \<Longrightarrow> wsum Q cw = wsum Q cw0
         + length (filter (\<lambda>e. \<exists>key. edgeKey_v2 part e = Inr key \<and> Q key) es)
       \<and> (\<forall>e \<in> set es. \<exists>key. edgeKey_v2 part e = Inr key)"
proof (induction es arbitrary: cw0)
  case Nil
  then show ?case by simp
next
  case (Cons e es)
  let ?step = "\<lambda>edge acc. case acc of
             Inl e \<Rightarrow> Inl e
           | Inr cw \<Rightarrow> (case edgeKey_v2 part edge of
                         Inl e \<Rightarrow> Inl e
                       | Inr key \<Rightarrow> Inr (incr key cw))"
  have stuck: "\<And>xs err. fold ?step xs (Inl err) = Inl err"
  proof -
    fix xs err show "fold ?step xs (Inl err) = Inl err" by (induction xs) auto
  qed
  show ?case
  proof (cases "edgeKey_v2 part e")
    case (Inl err)
    then have "fold ?step (e # es) (Inr cw0) = Inl err" by (simp add: stuck)
    then show ?thesis using Cons.prems by simp
  next
    case (Inr key)
    then have "fold ?step es (Inr (incr key cw0)) = Inr cw" using Cons.prems by simp
    from Cons.IH[OF this] show ?thesis using Inr by (auto simp: wsum_incr)
  qed
qed

lemma aggregate_v2_links_count:
  assumes "aggregateCommunities_v2 graph part = Inr gd"
  shows "length (filter P (links gd))
     = length (filter (\<lambda>e. \<exists>key. edgeKey_v2 part e = Inr key \<and> P (keyLink key)) (g_edges graph))"
proof -
  from assms obtain cw where cw: "communityWeights_v2 graph part = Inr cw"
    and gd: "links gd = concat (map (\<lambda>(key, weight). replicate weight (keyLink key)) cw)"
    by (auto simp: aggregateCommunities_v2_def Let_def keyLink_def split: sum.splits)
  have "length (filter P (links gd)) = wsum (\<lambda>k. P (keyLink k)) cw"
    by (simp add: gd filter_replicate_links)
  also have "\<dots> = wsum (\<lambda>k. P (keyLink k)) []
       + length (filter (\<lambda>e. \<exists>key. edgeKey_v2 part e = Inr key \<and> P (keyLink key)) (g_edges graph))"
    using communityWeights_v2_fold[OF cw[unfolded communityWeights_v2_def]] by blast
  finally show ?thesis by (simp add: wsum_def)
qed

lemma keyLink_toString:
  "keyLink (linkKey (toString a) (toString b)) = \<lparr>source = toString a, target = toString b\<rparr>"
  by (simp add: keyLink_def splitKey_linkKey toString_no_bar)

lemma aggregate_v2_self_loops:
  assumes "aggregateCommunities_v2 graph part = Inr gd"
  shows "length (filter (\<lambda>l. source l = toString c \<and> target l = toString c) (links gd))
     = length (filter (\<lambda>e. comm part (source e) = Some c \<and> comm part (target e) = Some c)
                 (g_edges graph))"
proof -
  have "\<And>e::Link. (\<exists>key. edgeKey_v2 part e = Inr key
             \<and> source (keyLink key) = toString c \<and> target (keyLink key) = toString c)
         = (comm part (source e) = Some c \<and> comm part (target e) = Some c)"
    by (auto simp: edgeKey_v2_def comm_def keyLink_toString dest: toString_inj
             split: option.splits if_splits)
  then show ?thesis
    by (simp add: aggregate_v2_links_count[OF assms])
qed

lemma phase1_partition_ok:
  "optimizeModularity rnd graph resolution (newPartition ns degrees m) = Some part \<Longrightarrow> partition_ok part"
  using optimizeModularity_ok[of rnd graph resolution "newPartition ns degrees m" part] newPartition_ok
  by blast

lemma aggregate_v2_multiplicity:
  assumes "aggregateCommunities_v2 graph part = Inr gd"
  shows "length (filter (\<lambda>l. {source l, target l} = {toString c1, toString c2}) (links gd))
     = length (filter (\<lambda>e. {comm part (source e), comm part (target e)} = {Some c1, Some c2})
                 (g_edges graph))"
proof -
  have "\<And>e::Link. (\<exists>key. edgeKey_v2 part e = Inr key
             \<and> {source (keyLink key), target (keyLink key)} = {toString c1, toString c2})
         = ({comm part (source e), comm part (target e)} = {Some c1, Some c2})"
  proof -
    fix e :: Link
    show "(\<exists>key. edgeKey_v2 part e = Inr key
             \<and> {source (keyLink key), target (keyLink key)} = {toString c1, toString c2})
         = ({comm part (source e), comm part (target e)} = {Some c1, Some c2})"
    proof (cases "comm part (source e)")
      case None
      then show ?thesis by (auto simp: edgeKey_v2_def comm_def doubleton_eq_iff)
    next
      case a: (Some a)
      show ?thesis
      proof (cases "comm part (target e)")
        case None
        then show ?thesis using a by (auto simp: edgeKey_v2_def comm_def doubleton_eq_iff)
      next
        case b: (Some b)
        have inj: "\<And>x y. (toString x = toString y) = (x = y)"
          using toString_inj by blast
        show ?thesis using a b
          by (auto simp: edgeKey_v2_def comm_def keyLink_toString doubleton_eq_iff inj)
      qed
    qed
  qed
  then show ?thesis
    by (simp add: aggregate_v2_links_count[OF assms])
qed

subsection \<open>The aggregated graph\<close>

text \<open>
  C9, as the code has it. In the first variant, for a partition in order (as every
  partition that Phase 1 returns is), the aggregated graph has no self-edge, and between
  the aggregated nodes of two distinct communities it has exactly as many edges as the
  original graph has between their members. In the second variant every original edge is
  kept: between the aggregated nodes of two communities, equal or not, there are as many
  edges as the original graph has between their members, so an edge inside a community
  becomes a self-edge of its aggregated node.
\<close>

theorem C9_aggregation:
  "(partition_ok part \<longrightarrow>
      (\<forall>l \<in> set (links (aggregateCommunities graph part)). source l \<noteq> target l)
      \<and> (c1 \<noteq> c2 \<and> map_of (communityMap part) c1 = Some i1
           \<and> map_of (communityMap part) c2 = Some i2 \<longrightarrow>
         length (filter (\<lambda>l. {source l, target l} = {i1, i2})
                   (links (aggregateCommunities graph part)))
         = length (filter (\<lambda>e. {comm part (source e), comm part (target e)} = {Some c1, Some c2})
                     (g_edges graph))))
   \<and> (aggregateCommunities_v2 graph' part' = Inr gd \<longrightarrow>
        length (filter (\<lambda>l. {source l, target l} = {toString d1, toString d2}) (links gd))
        = length (filter (\<lambda>e. {comm part' (source e), comm part' (target e)} = {Some d1, Some d2})
                    (g_edges graph')))"
  using aggregate_no_self_edges[of part graph] aggregate_multiplicity[of part c1 c2 i1 i2 graph]
    aggregate_v2_multiplicity[of graph' part' gd d1 d2]
  by blast

theorem C9_aggregation_witness:
  "partition_ok part_path4
   \<and> list_all (\<lambda>l. source l \<noteq> target l) (links (aggregateCommunities (newGraph path4) part_path4))
   \<and> map_of (communityMap part_path4) 2 = Some ''0''
   \<and> map_of (communityMap part_path4) 3 = Some ''1''
   \<and> length (filter (\<lambda>l. {source l, target l} = {''0'', ''1''})
              (links (aggregateCommunities (newGraph path4) part_path4)))
       = length (filter (\<lambda>e. {comm part_path4 (source e), comm part_path4 (target e)} = {Some 2, Some 3})
              (g_edges (newGraph path4)))
   \<and> aggregateCommunities_v2 (newGraph_v2 edge_ab) part_ab
       = Inr \<lparr>nodes = [\<lparr>id' = ''1''\<rparr>], links = [\<lparr>source = ''1'', target = ''1''\<rparr>]\<rparr>
   \<and> length (filter (\<lambda>l. {source l, target l} = {toString 1, toString 1})
              (links \<lparr>nodes = [\<lparr>id' = ''1''\<rparr>], links = [\<lparr>source = ''1'', target = ''1''\<rparr>]\<rparr>))
       = length (filter (\<lambda>e. {comm part_ab (source e), comm part_ab (target e)} = {Some 1, Some 1})
              (g_edges (newGraph_v2 edge_ab)))"
proof -
  have ok: "partition_ok part_path4" by code_simp
  have i1: "map_of (communityMap part_path4) 2 = Some ''0''" by code_simp
  have i2: "map_of (communityMap part_path4) 3 = Some ''1''" by code_simp
  have v2: "aggregateCommunities_v2 (newGraph_v2 edge_ab) part_ab
       = Inr \<lparr>nodes = [\<lparr>id' = ''1''\<rparr>], links = [\<lparr>source = ''1'', target = ''1''\<rparr>]\<rparr>"
    by code_simp
  have ne: "(2::nat) \<noteq> 3" by simp
  show ?thesis
    using C9_aggregation[of part_path4 "newGraph path4" 2 3 "''0''" "''1''"
        "newGraph_v2 edge_ab" part_ab
        "\<lparr>nodes = [\<lparr>id' = ''1''\<rparr>], links = [\<lparr>source = ''1'', target = ''1''\<rparr>]\<rparr>" 1 1]
      ok i1 i2 v2 ne
    unfolding list_all_iff by blast
qed

text \<open>
  On the single edge \<open>a \<midarrow> b\<close> the second variant's Phase 1 puts both nodes in community
  1, and its aggregation keeps the edge as a self-edge of the aggregated node \<open>1\<close>. The
  gains computed on the way are \<open>1\<close>, \<open>- 1 / 2\<close> and \<open>1 / 2\<close>, which doubles hold
  exactly.
\<close>

theorem C9_self_edge_kept:
  "optimizeModularity_v2 (\<lambda>x. x) (newGraph_v2 edge_ab) 1
     (newPartition (g_nodes (newGraph_v2 edge_ab)) (g_degrees (newGraph_v2 edge_ab))
        (g_m (newGraph_v2 edge_ab))) = part_ab
   \<and> aggregateCommunities_v2 (newGraph_v2 edge_ab) part_ab
       = Inr \<lparr>nodes = [\<lparr>id' = ''1''\<rparr>], links = [\<lparr>source = ''1'', target = ''1''\<rparr>]\<rparr>"
  by code_simp

section \<open>Girvan-Newman: the edge that is removed\<close>































section \<open>Girvan-Newman: a target already met\<close>

lemma keys_eq:
  assumes "map fst a = map fst b"
  shows "fst ` set a = fst ` set b"
proof -
  have "set (map fst a) = set (map fst b)" by (simp only: assms)
  then show ?thesis by simp
qed

lemma keys_update: "fst ` set (AList.update k v al) = insert k (fst ` set al)"
proof -
  have "set (map fst (AList.update k v al)) = insert k (set (map fst al))"
    by (simp only: update_keys) auto
  then show ?thesis by simp
qed

lemma set_add: "set (add x s) = insert x (set s)"
  by (auto simp: add_def)

lemma addNeighbor_Inr:
  assumes "k \<in> fst ` set adj"
  shows "\<exists>adj'. addNeighbor k x adj = Inr adj' \<and> map fst adj' = map fst adj
           \<and> (\<forall>u. nbr adj' u = (if u = k then insert x (nbr adj k) else nbr adj u))"
proof -
  from assms obtain s where ms: "map_of adj k = Some s"
    by (cases "map_of adj k") (auto simp: map_of_eq_None_iff)
  have keys: "map fst (AList.update k (add x s) adj) = map fst adj"
    using assms by (simp add: update_keys)
  have "\<And>u. nbr (AList.update k (add x s) adj) u = (if u = k then insert x (nbr adj k) else nbr adj u)"
  proof -
    fix u
    show "nbr (AList.update k (add x s) adj) u = (if u = k then insert x (nbr adj k) else nbr adj u)"
    proof (cases "u = k")
      case True
      then show ?thesis using ms by (simp add: nbr_def getOr_def update_conv' set_add)
    next
      case False
      then show ?thesis by (simp add: nbr_def getOr_def update_conv')
    qed
  qed
  then show ?thesis using ms keys by (simp add: addNeighbor_def)
qed

lemma gn_addEdge_Inr:
  assumes "source e \<in> fst ` set adj" "target e \<in> fst ` set adj"
  shows "\<exists>adj'. gn_addEdge e (Inr adj) = Inr adj' \<and> map fst adj' = map fst adj
           \<and> (\<forall>u. nbr adj' u = nbr adj u \<union> {v. (u, v) = (source e, target e) \<or> (u, v) = (target e, source e)})"
proof -
  from addNeighbor_Inr[OF assms(1), of "target e"] obtain a1 where
    a1: "addNeighbor (source e) (target e) adj = Inr a1" "map fst a1 = map fst adj"
        "\<forall>u. nbr a1 u = (if u = source e then insert (target e) (nbr adj (source e)) else nbr adj u)"
    by blast
  have "target e \<in> fst ` set a1" using assms(2) keys_eq[OF a1(2)] by simp
  from addNeighbor_Inr[OF this, of "source e"] obtain a2 where
    a2: "addNeighbor (target e) (source e) a1 = Inr a2" "map fst a2 = map fst a1"
        "\<forall>u. nbr a2 u = (if u = target e then insert (source e) (nbr a1 (target e)) else nbr a1 u)"
    by blast
  have "gn_addEdge e (Inr adj) = Inr a2" using a1(1) a2(1) by (simp add: gn_addEdge_def)
  moreover have "map fst a2 = map fst adj" using a1(2) a2(2) by simp
  moreover have "\<forall>u. nbr a2 u = nbr adj u \<union> {v. (u, v) = (source e, target e) \<or> (u, v) = (target e, source e)}"
    using a1(3) a2(3) by auto
  ultimately show ?thesis by blast
qed

lemma gn_addEdge_fold:
  assumes "\<forall>e \<in> set es. source e \<in> fst ` set adj \<and> target e \<in> fst ` set adj"
  shows "\<exists>adj'. fold gn_addEdge es (Inr adj) = Inr adj' \<and> map fst adj' = map fst adj
           \<and> (\<forall>u. nbr adj' u = nbr adj u
                  \<union> {v. (u, v) \<in> (\<lambda>e. (source e, target e)) ` set es
                               \<union> (\<lambda>e. (target e, source e)) ` set es})"
  using assms
proof (induction es arbitrary: adj)
  case Nil
  then show ?case by simp
next
  case (Cons e es)
  have "source e \<in> fst ` set adj" "target e \<in> fst ` set adj" using Cons.prems by simp_all
  from gn_addEdge_Inr[OF this] obtain a1 where
    a1: "gn_addEdge e (Inr adj) = Inr a1" "map fst a1 = map fst adj"
        "\<forall>u. nbr a1 u = nbr adj u \<union> {v. (u, v) = (source e, target e) \<or> (u, v) = (target e, source e)}"
    by blast
  have "fst ` set a1 = fst ` set adj" using a1(2) by (rule keys_eq)
  then have "\<forall>e \<in> set es. source e \<in> fst ` set a1 \<and> target e \<in> fst ` set a1"
    using Cons.prems by simp
  from Cons.IH[OF this] obtain a2 where
    a2: "fold gn_addEdge es (Inr a1) = Inr a2" "map fst a2 = map fst a1"
        "\<forall>u. nbr a2 u = nbr a1 u
                  \<union> {v. (u, v) \<in> (\<lambda>e. (source e, target e)) ` set es
                               \<union> (\<lambda>e. (target e, source e)) ` set es}"
    by blast
  have "fold gn_addEdge (e # es) (Inr adj) = Inr a2" using a1(1) a2(1) by simp
  moreover have "map fst a2 = map fst adj" using a1(2) a2(2) by simp
  moreover have "\<forall>u. nbr a2 u = nbr adj u
                  \<union> {v. (u, v) \<in> (\<lambda>e. (source e, target e)) ` set (e # es)
                               \<union> (\<lambda>e. (target e, source e)) ` set (e # es)}"
    using a1(3) a2(3) by auto
  ultimately show ?case by blast
qed

lemma init_adj_keys:
  "fst ` set (fold (\<lambda>n. AList.update n v) ns al) = fst ` set al \<union> set ns"
proof (induction ns arbitrary: al)
  case Nil
  then show ?case by simp
next
  case (Cons n ns)
  have "fst ` set (AList.update n v al) = insert n (fst ` set al)"
    by (rule keys_update)
  then show ?case using Cons.IH[of "AList.update n v al"] by auto
qed

lemma init_adj_nbr:
  "(\<forall>u. nbr al u = {}) \<Longrightarrow> nbr (fold (\<lambda>n. AList.update n []) ns al) u = {}"
proof (induction ns arbitrary: al)
  case Nil
  then show ?case by simp
next
  case (Cons n ns)
  have "\<forall>u. nbr (AList.update n [] al) u = {}"
    using Cons.prems by (auto simp: nbr_def getOr_def update_conv' split: option.splits)
  from Cons.IH[OF this] show ?case by simp
qed

lemma newTempAdj_wellFormed:
  assumes "wellFormed graph"
  shows "\<exists>adj. newTempAdj graph = Inr adj \<and> fst ` set adj = set (g_nodes graph)
           \<and> (\<forall>u. nbr adj u = {v. (u, v) \<in> linked graph})"
proof -
  define adj0 where "adj0 = fold (\<lambda>n. AList.update n ([]::string list)) (g_nodes graph) []"
  have k0: "fst ` set adj0 = set (g_nodes graph)"
    unfolding adj0_def using init_adj_keys[of "[]" "g_nodes graph" "[]"] by simp
  have n0: "\<forall>u. nbr adj0 u = {}"
    unfolding adj0_def using init_adj_nbr[of "[]" "g_nodes graph"] by (simp add: nbr_def getOr_def)
  have "\<forall>e \<in> set (g_edges graph). source e \<in> fst ` set adj0 \<and> target e \<in> fst ` set adj0"
    using assms k0 by (simp add: wellFormed_def list_all_iff)
  from gn_addEdge_fold[OF this] obtain adj where
    a: "fold gn_addEdge (g_edges graph) (Inr adj0) = Inr adj" "map fst adj = map fst adj0"
       "\<forall>u. nbr adj u = nbr adj0 u
                  \<union> {v. (u, v) \<in> (\<lambda>e. (source e, target e)) ` set (g_edges graph)
                               \<union> (\<lambda>e. (target e, source e)) ` set (g_edges graph)}"
    by blast
  have "newTempAdj graph = Inr adj" using a(1) by (simp add: newTempAdj_def adj0_def)
  moreover have "fst ` set adj = set (g_nodes graph)" using keys_eq[OF a(2)] k0 by simp
  moreover have "\<forall>u. nbr adj u = {v. (u, v) \<in> linked graph}"
    using a(3) n0 by (simp add: linked_def)
  ultimately show ?thesis by blast
qed

lemma gc_scan_sets:
  "gc_scan nbrs (q, visited) = (q', visited') \<Longrightarrow>
   \<exists>new. q' = q @ new \<and> visited' = visited @ new \<and> distinct new
         \<and> set new = set nbrs - set visited"
proof (induction nbrs arbitrary: q visited)
  case Nil
  then show ?case by (simp add: gc_scan_def)
next
  case (Cons v nbrs)
  show ?case
  proof (cases "v \<in> set visited")
    case True
    then have "gc_scan nbrs (q, visited) = (q', visited')"
      using Cons.prems by (simp add: gc_scan_def)
    from Cons.IH[OF this] obtain new where
      n: "q' = q @ new" "visited' = visited @ new" "distinct new"
         "set new = set nbrs - set visited"
      by blast
    have "set new = set (v # nbrs) - set visited" using n(4) True by auto
    then show ?thesis using n(1,2,3) by blast
  next
    case False
    then have "gc_scan nbrs (q @ [v], visited @ [v]) = (q', visited')"
      using Cons.prems by (simp add: gc_scan_def)
    from Cons.IH[OF this] obtain new where
      n: "q' = (q @ [v]) @ new" "visited' = (visited @ [v]) @ new" "distinct new"
         "set new = set nbrs - set (visited @ [v])"
      by blast
    have 1: "q' = q @ (v # new)" "visited' = visited @ (v # new)" using n(1,2) by simp_all
    have 2: "distinct (v # new)" using n(3,4) by auto
    have 3: "set (v # new) = set (v # nbrs) - set visited" using n(4) False by auto
    show ?thesis using 1 2 3 by blast
  qed
qed

lemma bfs_inv_step:
  assumes inv: "bfs_inv adj s V0 (u # rest) vis cpt"
    and sc: "gc_scan (getOr [] adj u) (rest, vis) = (q1, v1)"
  shows "bfs_inv adj s V0 q1 v1 (cpt @ [u])"
proof -
  from gc_scan_sets[OF sc] obtain new where
    n: "q1 = rest @ new" "v1 = vis @ new" "distinct new" "set new = nbr adj u - set vis"
    by (auto simp: nbr_def)
  note I = inv[unfolded bfs_inv_def]
  have d: "distinct (cpt @ u # rest)" using I by blast
  have v: "set vis = V0 \<union> set cpt \<union> set (u # rest)" using I by blast
  have dj: "(set cpt \<union> set (u # rest)) \<inter> V0 = {}" using I by blast
  have re: "set cpt \<union> set (u # rest) \<subseteq> (Rel adj)\<^sup>* `` {s}" using I by blast
  have cl: "\<forall>x \<in> set cpt. nbr adj x \<subseteq> set vis" using I by blast
  have st: "s \<in> set cpt \<union> set (u # rest)" using I by blast
  have 1: "distinct ((cpt @ [u]) @ q1)"
    using d n(1,3,4) v by auto
  have 2: "set v1 = V0 \<union> set (cpt @ [u]) \<union> set q1"
    using v n(1,2) by auto
  have 3: "(set (cpt @ [u]) \<union> set q1) \<inter> V0 = {}"
    using dj n(1,4) v by auto
  have ur: "u \<in> (Rel adj)\<^sup>* `` {s}" using re by auto
  have "set new \<subseteq> (Rel adj)\<^sup>* `` {s}"
  proof
    fix x assume "x \<in> set new"
    then have "(u, x) \<in> Rel adj" using n(4) by (simp add: Rel_def)
    moreover have "(s, u) \<in> (Rel adj)\<^sup>*" using ur by simp
    ultimately have "(s, x) \<in> (Rel adj)\<^sup>*" by (rule rtrancl_into_rtrancl[rotated])
    then show "x \<in> (Rel adj)\<^sup>* `` {s}" by simp
  qed
  then have 4: "set (cpt @ [u]) \<union> set q1 \<subseteq> (Rel adj)\<^sup>* `` {s}"
    using re n(1) by auto
  have 5: "\<forall>x \<in> set (cpt @ [u]). nbr adj x \<subseteq> set v1"
    using cl n(2,4) by auto
  have 6: "s \<in> set (cpt @ [u]) \<union> set q1"
    using st n(1) by auto
  show ?thesis unfolding bfs_inv_def using 1 2 3 4 5 6 by blast
qed

lemma gc_bfs_inv:
  "gc_bfs adj q vis cpt = (cpt', vis') \<Longrightarrow> bfs_inv adj s V0 q vis cpt
   \<Longrightarrow> bfs_inv adj s V0 [] vis' cpt'"
proof (induction adj q vis cpt rule: gc_bfs.induct)
  case (1 adj visited component)
  then show ?case by simp
next
  case (2 adj u rest visited component)
  obtain q1 v1 where sc: "gc_scan (getOr [] adj u) (rest, visited) = (q1, v1)"
    by (cases "gc_scan (getOr [] adj u) (rest, visited)")
  have run: "gc_bfs adj q1 v1 (component @ [u]) = (cpt', vis')"
    using "2.prems"(1) sc by simp
  have inv: "bfs_inv adj s V0 q1 v1 (component @ [u])"
    using bfs_inv_step[OF "2.prems"(2) sc] .
  show ?case using "2.IH"[OF sc[symmetric] run inv] .
qed

lemma gc_bfs_component:
  assumes run: "gc_bfs adj [s] (visited @ [s]) [] = (cpt, vis')"
    and fresh: "s \<notin> set visited"
    and sym: "sym (Rel adj)"
    and closed: "Rel adj `` set visited \<subseteq> set visited"
  shows "set cpt = (Rel adj)\<^sup>* `` {s} \<and> distinct cpt
       \<and> set vis' = set visited \<union> set cpt \<and> set cpt \<inter> set visited = {}
       \<and> Rel adj `` set vis' \<subseteq> set vis'"
proof -
  have "bfs_inv adj s (set visited) [s] (visited @ [s]) []"
    using fresh by (simp add: bfs_inv_def)
  from gc_bfs_inv[OF run this] have I: "bfs_inv adj s (set visited) [] vis' cpt" .
  have d: "distinct cpt" using I by (simp add: bfs_inv_def)
  have v: "set vis' = set visited \<union> set cpt" using I by (simp add: bfs_inv_def)
  have dj: "set cpt \<inter> set visited = {}" using I by (simp add: bfs_inv_def)
  have re: "set cpt \<subseteq> (Rel adj)\<^sup>* `` {s}" using I by (simp add: bfs_inv_def)
  have cl: "\<forall>x \<in> set cpt. nbr adj x \<subseteq> set vis'"
    using I unfolding bfs_inv_def by blast
  have st: "s \<in> set cpt" using I by (simp add: bfs_inv_def)
  have step: "\<And>x y. x \<in> set cpt \<Longrightarrow> (x, y) \<in> Rel adj \<Longrightarrow> y \<in> set cpt"
  proof -
    fix x y assume x: "x \<in> set cpt" and xy: "(x, y) \<in> Rel adj"
    then have "y \<in> set vis'" using cl by (auto simp: Rel_def)
    moreover have "y \<notin> set visited"
    proof
      assume "y \<in> set visited"
      moreover have "(y, x) \<in> Rel adj" using sym xy by (simp add: sym_def)
      ultimately have "x \<in> set visited" using closed by auto
      then show False using x dj by auto
    qed
    ultimately show "y \<in> set cpt" using v by auto
  qed
  have "\<And>y. (s, y) \<in> (Rel adj)\<^sup>* \<Longrightarrow> y \<in> set cpt"
  proof -
    fix y assume "(s, y) \<in> (Rel adj)\<^sup>*"
    then show "y \<in> set cpt"
      by (induction rule: rtrancl_induct) (use st step in auto)
  qed
  then have eq: "set cpt = (Rel adj)\<^sup>* `` {s}" using re by auto
  have "Rel adj `` set vis' \<subseteq> set vis'"
    using closed step v by auto
  then show ?thesis using eq d v dj by blast
qed

lemma sym_reach_eq:
  assumes "sym r" "(n, x) \<in> r\<^sup>*"
  shows "r\<^sup>* `` {x} = r\<^sup>* `` {n}"
proof -
  have "(x, n) \<in> r\<^sup>*" using assms by (meson sym_rtrancl symD)
  then show ?thesis using assms(2) by (auto intro: rtrancl_trans)
qed

lemma reach_in:
  assumes "r `` N \<subseteq> N" "n \<in> N"
  shows "r\<^sup>* `` {n} \<subseteq> N"
proof
  fix y assume "y \<in> r\<^sup>* `` {n}"
  then have "(n, y) \<in> r\<^sup>*" by simp
  then show "y \<in> N"
    by (induction rule: rtrancl_induct) (use assms in auto)
qed

lemma gc_visit_inv:
  assumes inv: "comps_inv adj N comps visited"
    and sym: "sym (Rel adj)" and NN: "Rel adj `` N \<subseteq> N" and n: "n \<in> N"
    and v: "gc_visit adj n (comps, visited) = (comps', visited')"
  shows "comps_inv adj N comps' visited' \<and> insert n (set visited) \<subseteq> set visited'"
proof (cases "n \<in> set visited")
  case True
  then show ?thesis using inv v by (simp add: gc_visit_def)
next
  case False
  obtain cpt vis' where run: "gc_bfs adj [n] (visited @ [n]) [] = (cpt, vis')"
    by (cases "gc_bfs adj [n] (visited @ [n]) []")
  have res: "comps' = comps @ [cpt]" "visited' = vis'"
    using v False run by (simp_all add: gc_visit_def)
  note I = inv[unfolded comps_inv_def]
  have i1: "set visited = set (concat comps)" using I by blast
  have i2: "set visited \<subseteq> N" using I by blast
  have i3: "Rel adj `` set visited \<subseteq> set visited" using I by blast
  have i4: "distinct (concat comps)" using I by blast
  have i5: "\<forall>c \<in> set comps. c \<noteq> [] \<and> (\<forall>x \<in> set c. set c = (Rel adj)\<^sup>* `` {x})"
    using I by blast
  from gc_bfs_component[OF run False sym i3] have
    c1: "set cpt = (Rel adj)\<^sup>* `` {n}" and c2: "distinct cpt"
    and c3: "set vis' = set visited \<union> set cpt" and c4: "set cpt \<inter> set visited = {}"
    and c5: "Rel adj `` set vis' \<subseteq> set vis'"
    by blast+
  have nc: "n \<in> set cpt" using c1 by simp
  have 1: "set vis' = set (concat (comps @ [cpt]))" using c3 i1 by auto
  have 2: "set vis' \<subseteq> N" using c3 i2 c1 reach_in[OF NN n] by auto
  have 4: "distinct (concat (comps @ [cpt]))" using i4 c2 c4 i1 by auto
  have "\<forall>x \<in> set cpt. set cpt = (Rel adj)\<^sup>* `` {x}"
  proof
    fix x assume "x \<in> set cpt"
    then have "(n, x) \<in> (Rel adj)\<^sup>*" using c1 by simp
    from sym_reach_eq[OF sym this] show "set cpt = (Rel adj)\<^sup>* `` {x}" using c1 by simp
  qed
  moreover have "cpt \<noteq> []" using nc by auto
  ultimately have 5: "\<forall>c \<in> set (comps @ [cpt]). c \<noteq> [] \<and> (\<forall>x \<in> set c. set c = (Rel adj)\<^sup>* `` {x})"
    using i5 by simp
  have "comps_inv adj N (comps @ [cpt]) vis'"
    unfolding comps_inv_def using 1 2 c5 4 5 by blast
  moreover have "insert n (set visited) \<subseteq> set vis'" using c3 nc by auto
  ultimately show ?thesis using res by simp
qed

lemma gc_fold_inv:
  assumes sym: "sym (Rel adj)" and NN: "Rel adj `` N \<subseteq> N"
  shows "comps_inv adj N comps visited \<Longrightarrow> set ns \<subseteq> N
     \<Longrightarrow> fold (gc_visit adj) ns (comps, visited) = (comps', visited')
     \<Longrightarrow> comps_inv adj N comps' visited' \<and> set visited \<union> set ns \<subseteq> set visited'"
proof (induction ns arbitrary: comps visited)
  case Nil
  then show ?case by simp
next
  case (Cons n ns)
  obtain c1 v1 where s: "gc_visit adj n (comps, visited) = (c1, v1)"
    by (cases "gc_visit adj n (comps, visited)")
  have n: "n \<in> N" using Cons.prems(2) by simp
  from gc_visit_inv[OF Cons.prems(1) sym NN n s]
  have i1: "comps_inv adj N c1 v1" and m1: "insert n (set visited) \<subseteq> set v1" by simp_all
  have f: "fold (gc_visit adj) ns (c1, v1) = (comps', visited')"
    using Cons.prems(3) s by simp
  have "set ns \<subseteq> N" using Cons.prems(2) by simp
  from Cons.IH[OF i1 this f] m1 show ?case by auto
qed

lemma getComponents_correct:
  assumes sym: "sym (Rel adj)" and NN: "Rel adj `` set (g_nodes graph) \<subseteq> set (g_nodes graph)"
  shows "set (concat (getComponents graph adj)) = set (g_nodes graph)
       \<and> distinct (concat (getComponents graph adj))
       \<and> (\<forall>c \<in> set (getComponents graph adj).
             c \<noteq> [] \<and> (\<forall>x \<in> set c. set c = (Rel adj)\<^sup>* `` {x}))"
proof -
  obtain comps visited where f: "fold (gc_visit adj) (g_nodes graph) ([], []) = (comps, visited)"
    by (cases "fold (gc_visit adj) (g_nodes graph) ([], [])")
  have i0: "comps_inv adj (set (g_nodes graph)) [] []" by (simp add: comps_inv_def)
  from gc_fold_inv[OF sym NN i0 subset_refl f]
  have inv: "comps_inv adj (set (g_nodes graph)) comps visited"
    and cover: "set (g_nodes graph) \<subseteq> set visited" by simp_all
  note I = inv[unfolded comps_inv_def]
  have i1: "set visited = set (concat comps)" using I by blast
  have i2: "set visited \<subseteq> set (g_nodes graph)" using I by blast
  have i4: "distinct (concat comps)" using I by blast
  have i5: "\<forall>c \<in> set comps. c \<noteq> [] \<and> (\<forall>x \<in> set c. set c = (Rel adj)\<^sup>* `` {x})"
    using I by blast
  have g: "getComponents graph adj = comps" using f by (simp add: getComponents_def)
  have "set (concat comps) = set (g_nodes graph)" using i1 i2 cover by auto
  then show ?thesis unfolding g using i4 i5 by blast
qed

lemma Rel_linked:
  assumes "\<forall>u. nbr adj u = {v. (u, v) \<in> linked graph}"
  shows "Rel adj = linked graph"
  using assms by (auto simp: Rel_def)

lemma sym_linked: "sym (linked graph)"
  by (auto simp: sym_def linked_def)

lemma linked_closed:
  assumes "wellFormed graph"
  shows "linked graph `` set (g_nodes graph) \<subseteq> set (g_nodes graph)"
  using assms by (auto simp: wellFormed_def list_all_iff linked_def)

lemma concat_index_unique:
  "distinct (concat xs) \<Longrightarrow> i < length xs \<Longrightarrow> j < length xs
   \<Longrightarrow> x \<in> set (xs ! i) \<Longrightarrow> x \<in> set (xs ! j) \<Longrightarrow> i = j"
proof (induction xs arbitrary: i j)
  case Nil
  then show ?case by simp
next
  case (Cons c xs)
  have dj: "set c \<inter> set (concat xs) = {}" and dx: "distinct (concat xs)"
    using Cons.prems(1) by simp_all
  show ?case
  proof (cases i)
    case 0
    show ?thesis
    proof (cases j)
      case 0
      then show ?thesis using \<open>i = 0\<close> by simp
    next
      case (Suc j')
      have "x \<in> set c" using Cons.prems(4) \<open>i = 0\<close> by simp
      moreover have "x \<in> set (concat xs)" using Cons.prems(3,5) Suc by auto
      ultimately show ?thesis using dj by blast
    qed
  next
    case (Suc i')
    show ?thesis
    proof (cases j)
      case 0
      have "x \<in> set c" using Cons.prems(5) 0 by simp
      moreover have "x \<in> set (concat xs)" using Cons.prems(2,4) Suc by auto
      ultimately show ?thesis using dj by blast
    next
      case (Suc j')
      have "i' = j'"
        using Cons.IH[OF dx, of i' j'] Cons.prems(2-5) \<open>i = Suc i'\<close> Suc by simp
      then show ?thesis using \<open>i = Suc i'\<close> Suc by simp
    qed
  qed
qed

lemma gn_result_from:
  "map node (concat (map (\<lambda>(component, i). map (\<lambda>n. \<lparr>node = n, community = i\<rparr>) component)
               (zip cs [k ..< k + length cs]))) = concat cs"
proof (induction cs arbitrary: k)
  case Nil
  then show ?case by simp
next
  case (Cons c cs)
  have up: "[k ..< k + length (c # cs)] = k # [Suc k ..< Suc k + length cs]"
    by (subst upt_conv_Cons) simp_all
  have "map node (map (\<lambda>n. \<lparr>node = n, community = k\<rparr>) c) = c"
    by (induction c) simp_all
  then show ?case unfolding up using Cons.IH[of "Suc k"] by simp
qed

lemma gn_result_nodes: "map node (gn_result cs) = concat cs"
  using gn_result_from[of cs 0] by (simp add: gn_result_def)

lemma gn_result_member:
  "a \<in> set (gn_result cs) \<longleftrightarrow> community a < length cs \<and> node a \<in> set (cs ! community a)"
proof
  assume "a \<in> set (gn_result cs)"
  then obtain c i where ci: "(c, i) \<in> set (zip cs [0 ..< length cs])"
    and a: "a \<in> set (map (\<lambda>n. \<lparr>node = n, community = i\<rparr>) c)"
    by (auto simp: gn_result_def)
  from ci obtain k where k: "k < length cs" "c = cs ! k" "i = [0 ..< length cs] ! k"
    by (auto simp: set_zip)
  then have "i = k" by simp
  then show "community a < length cs \<and> node a \<in> set (cs ! community a)"
    using a k by auto
next
  assume h: "community a < length cs \<and> node a \<in> set (cs ! community a)"
  let ?i = "community a"
  have "(cs ! ?i, ?i) \<in> set (zip cs [0 ..< length cs])"
    using h by (auto simp: set_zip intro!: exI[of _ ?i])
  moreover have "a \<in> set (map (\<lambda>n. \<lparr>node = n, community = ?i\<rparr>) (cs ! ?i))"
    using h by (auto intro!: image_eqI[of _ _ "node a"])
  ultimately show "a \<in> set (gn_result cs)"
    unfolding gn_result_def by (auto intro!: bexI[of _ "(cs ! ?i, ?i)"])
qed

lemma components_count:
  assumes cover: "set (concat cs) = N" and d: "distinct (concat cs)"
    and each: "\<forall>c \<in> set cs. c \<noteq> [] \<and> (\<forall>x \<in> set c. set c = r\<^sup>* `` {x})"
  shows "length cs = card ((\<lambda>n. r\<^sup>* `` {n}) ` N)"
proof -
  have img: "set ` set cs = (\<lambda>n. r\<^sup>* `` {n}) ` N"
  proof
    show "set ` set cs \<subseteq> (\<lambda>n. r\<^sup>* `` {n}) ` N"
    proof
      fix s assume "s \<in> set ` set cs"
      then obtain c where c: "c \<in> set cs" "s = set c" by blast
      then have ne: "c \<noteq> []" using each by blast
      then have h: "hd c \<in> set c" by simp
      then have "set c = r\<^sup>* `` {hd c}" using each c(1) by blast
      moreover have "hd c \<in> N" using h c(1) cover by auto
      ultimately show "s \<in> (\<lambda>n. r\<^sup>* `` {n}) ` N" using c(2) by blast
    qed
    show "(\<lambda>n. r\<^sup>* `` {n}) ` N \<subseteq> set ` set cs"
    proof
      fix s assume "s \<in> (\<lambda>n. r\<^sup>* `` {n}) ` N"
      then obtain n where n: "n \<in> N" "s = r\<^sup>* `` {n}" by blast
      then obtain c where c: "c \<in> set cs" "n \<in> set c" using cover by auto
      then have "set c = r\<^sup>* `` {n}" using each by blast
      then show "s \<in> set ` set cs" using c(1) n(2) by blast
    qed
  qed
  have inj: "i = j" if "i < length cs" "j < length cs" "set (cs ! i) = set (cs ! j)" for i j
  proof -
    have "cs ! i \<in> set cs" using that(1) by simp
    then have "cs ! i \<noteq> []" using each by blast
    then have "hd (cs ! i) \<in> set (cs ! i)" by simp
    moreover from this have "hd (cs ! i) \<in> set (cs ! j)" using that(3) by simp
    ultimately show ?thesis using concat_index_unique[OF d that(1,2)] by blast
  qed
  have "distinct (map set cs)"
    unfolding distinct_conv_nth using inj by auto
  then have "card (set (map set cs)) = length (map set cs)" by (rule distinct_card)
  then show ?thesis using img by simp
qed

lemma componentsOf_reach: "componentsOf graph = (\<lambda>n. (linked graph)\<^sup>* `` {n}) ` set (g_nodes graph)"
  by (auto simp: componentsOf_def connected_def Image_def)

lemma initial_components:
  assumes wf: "wellFormed graph"
  shows "\<exists>adj. newTempAdj graph = Inr adj
           \<and> set (concat (getComponents graph adj)) = set (g_nodes graph)
           \<and> distinct (concat (getComponents graph adj))
           \<and> (\<forall>c \<in> set (getComponents graph adj).
                 c \<noteq> [] \<and> (\<forall>x \<in> set c. set c = (linked graph)\<^sup>* `` {x}))
           \<and> length (getComponents graph adj) = card (componentsOf graph)"
proof -
  from newTempAdj_wellFormed[OF wf] obtain adj where
    adj: "newTempAdj graph = Inr adj" and nb: "\<forall>u. nbr adj u = {v. (u, v) \<in> linked graph}"
    by blast
  have R: "Rel adj = linked graph" using nb by (rule Rel_linked)
  have s: "sym (Rel adj)" unfolding R by (rule sym_linked)
  have cl: "Rel adj `` set (g_nodes graph) \<subseteq> set (g_nodes graph)"
    unfolding R using wf by (rule linked_closed)
  from getComponents_correct[OF s cl] have
    g1: "set (concat (getComponents graph adj)) = set (g_nodes graph)"
    and g2: "distinct (concat (getComponents graph adj))"
    and g3: "\<forall>c \<in> set (getComponents graph adj).
                 c \<noteq> [] \<and> (\<forall>x \<in> set c. set c = (linked graph)\<^sup>* `` {x})"
    unfolding R by blast+
  have "length (getComponents graph adj) = card (componentsOf graph)"
    unfolding componentsOf_reach by (rule components_count[OF g1 g2 g3])
  then show ?thesis using adj g1 g2 g3 by blast
qed

text \<open>
  On a graph whose links all join listed nodes, Girvan-Newman called with a target that is at
  most the number of connected components leaves its loop at once, with the adjacency and the
  edge list as they were built, so no edge is removed; what it returns has one entry for each
  node, and two nodes have the same community exactly when a path of links joins them.
\<close>

lemma early_termination_wellFormed:
  assumes wf: "wellFormed graph"
    and target: "targetCommunities \<le> int (card (componentsOf graph))"
  shows "\<exists>adj result.
           newTempAdj graph = Inr adj
           \<and> gn_while rnd graph targetCommunities (gn_init graph adj) = Some (Inr (gn_init graph adj))
           \<and> tempAdj (gn_init graph adj) = adj
           \<and> runGirvanNewman rnd graph targetCommunities = Some (Inr result)
           \<and> distinct (map node result) \<and> set (map node result) = set (g_nodes graph)
           \<and> (\<forall>a \<in> set result. \<forall>b \<in> set result.
                 (community a = community b) = connected graph (node a) (node b))"
proof -
  from initial_components[OF wf] obtain adj where
    adj: "newTempAdj graph = Inr adj"
    and g1: "set (concat (getComponents graph adj)) = set (g_nodes graph)"
    and g2: "distinct (concat (getComponents graph adj))"
    and g3: "\<forall>c \<in> set (getComponents graph adj).
                 c \<noteq> [] \<and> (\<forall>x \<in> set c. set c = (linked graph)\<^sup>* `` {x})"
    and cnt: "length (getComponents graph adj) = card (componentsOf graph)"
    by blast
  let ?cs = "getComponents graph adj"
  let ?st = "gn_init graph adj"
  have nc: "numComponents ?st = card (componentsOf graph)"
    using cnt by (simp add: gn_init_def)
  have ta: "tempAdj ?st = adj" by (simp add: gn_init_def)
  have stop: "gn_while rnd graph targetCommunities ?st = Some (Inr ?st)"
    by (subst gn_while.simps) (use nc target in simp)
  have run: "runGirvanNewman rnd graph targetCommunities = Some (Inr (gn_result ?cs))"
    using adj stop ta by (simp add: runGirvanNewman_def)
  have d: "distinct (map node (gn_result ?cs))" using g2 by (simp add: gn_result_nodes)
  have s: "set (map node (gn_result ?cs)) = set (g_nodes graph)"
    using g1 by (simp add: gn_result_nodes)
  have same: "(community a = community b) = connected graph (node a) (node b)"
    if a: "a \<in> set (gn_result ?cs)" and b: "b \<in> set (gn_result ?cs)" for a b
  proof -
    from a have ia: "community a < length ?cs" and na: "node a \<in> set (?cs ! community a)"
      by (simp_all add: gn_result_member)
    from b have ib: "community b < length ?cs" and nb: "node b \<in> set (?cs ! community b)"
      by (simp_all add: gn_result_member)
    have "?cs ! community a \<in> set ?cs" using ia by simp
    then have ra: "set (?cs ! community a) = (linked graph)\<^sup>* `` {node a}"
      using g3 na by blast
    show ?thesis
    proof
      assume "community a = community b"
      then have "node b \<in> (linked graph)\<^sup>* `` {node a}" using nb ra by simp
      then show "connected graph (node a) (node b)" by (simp add: connected_def)
    next
      assume "connected graph (node a) (node b)"
      then have "node b \<in> set (?cs ! community a)" using ra by (simp add: connected_def)
      from concat_index_unique[OF g2 ia ib this nb] show "community a = community b" .
    qed
  qed
  show ?thesis using adj stop ta run d s same by blast
qed

text \<open>Two disjoint edges and a target of two communities.\<close>

lemma early_termination_two_edges:
  "wellFormed (newGraph two_edges)
   \<and> (2::int) \<le> int (card (componentsOf (newGraph two_edges)))
   \<and> (\<exists>adj result.
           newTempAdj (newGraph two_edges) = Inr adj
           \<and> gn_while rnd (newGraph two_edges) 2 (gn_init (newGraph two_edges) adj)
               = Some (Inr (gn_init (newGraph two_edges) adj))
           \<and> tempAdj (gn_init (newGraph two_edges) adj) = adj
           \<and> runGirvanNewman rnd (newGraph two_edges) 2 = Some (Inr result)
           \<and> distinct (map node result) \<and> set (map node result) = set (g_nodes (newGraph two_edges))
           \<and> list_all (\<lambda>a. list_all (\<lambda>b.
                 (community a = community b) = connected (newGraph two_edges) (node a) (node b)) result) result)"
proof -
  have wf: "wellFormed (newGraph two_edges)" by code_simp
  from initial_components[OF wf] obtain adj where
    adj: "newTempAdj (newGraph two_edges) = Inr adj"
    and cnt: "length (getComponents (newGraph two_edges) adj) = card (componentsOf (newGraph two_edges))"
    by blast
  have "newTempAdj (newGraph two_edges) = Inr two_adj" by code_simp
  then have "adj = two_adj" using adj by simp
  moreover have "length (getComponents (newGraph two_edges) two_adj) = 2" by code_simp
  ultimately have t: "(2::int) \<le> int (card (componentsOf (newGraph two_edges)))"
    using cnt by simp
  show ?thesis
    using early_termination_wellFormed[OF wf t] wf t unfolding list_all_iff by blast
qed

text \<open>
  Claim C4. The claim is made of every input graph. The constructor of \<open>Graph\<close> keeps a
  link whose endpoint is not a listed node in \<open>edges\<close>, and skips it only when it fills
  its own adjacency; \<open>runGirvanNewman\<close> fills \<open>tempAdj\<close> from \<open>edges\<close> with no such
  test. On the single node \<open>a\<close> with the link \<open>a \<midarrow> z\<close> and a target of one community,
  which is the number of components, no partition is returned: the call throws a
  \<open>TypeError\<close>, and the worker posts it as an error.
\<close>

theorem C4_dangling_link_throws:
  "g_nodes (newGraph dangling_link) = [''a'']
   \<and> g_edges (newGraph dangling_link) = [\<lparr>source = ''a'', target = ''z''\<rparr>]
   \<and> g_adj (newGraph dangling_link) = [(''a'', [])]
   \<and> card (componentsOf (newGraph dangling_link)) = 1
   \<and> newTempAdj (newGraph dangling_link) = Inl TypeError
   \<and> runGirvanNewman rnd (newGraph dangling_link) 1 = Some (Inl TypeError)
   \<and> onmessage rnd dangling_link (Member GIRVAN_NEWMAN) \<lparr>p_resolution = 1, p_targetCommunities = 1\<rparr>
       = Some (ERROR TypeError)"
proof -
  have n: "g_nodes (newGraph dangling_link) = [''a'']" by code_simp
  have e: "g_edges (newGraph dangling_link) = [\<lparr>source = ''a'', target = ''z''\<rparr>]" by code_simp
  have a: "g_adj (newGraph dangling_link) = [(''a'', [])]" by code_simp
  have c: "card (componentsOf (newGraph dangling_link)) = 1" by (simp add: componentsOf_def n)
  have t: "newTempAdj (newGraph dangling_link) = Inl TypeError" by code_simp
  have r: "runGirvanNewman rnd (newGraph dangling_link) 1 = Some (Inl TypeError)"
    by (simp add: runGirvanNewman_def t)
  have w: "onmessage rnd dangling_link (Member GIRVAN_NEWMAN) \<lparr>p_resolution = 1, p_targetCommunities = 1\<rparr>
       = Some (ERROR TypeError)"
    by (simp add: onmessage_def Let_def n r)
  show ?thesis using n e a c t r w by simp
qed

section \<open>Normalized mutual information of a single community\<close>

lemma log2_eps_pos: "0 < log2 (1 + eps)"
  by (simp add: log2_def eps_def)

lemma one_community_table:
  "fold (nmi_count (newMap (map (\<lambda>item. (node item, community item)) one_community))
                   (newMap (map (\<lambda>item. (node item, community item)) one_community))
                   [0] [0])
        ab_nodes [[0]] = [[2]]"
  by code_simp

lemma one_community_labels: "newSet (map community one_community) = [0]"
  by code_simp

lemma calculateNMI_range:
  "0 \<le> calculateNMI groundTruth detected nodes' \<and> calculateNMI groundTruth detected nodes' \<le> 1"
  by (simp add: calculateNMI_def Let_def)

text \<open>
  Claim C7. The claim has the score at exactly 1 when each partition is a single community.
  For two nodes \<open>a\<close> and \<open>b\<close> in one community, compared with itself, the entropy
  computed is \<open>- log2 (1 + eps)\<close>, which is not zero, so the branch returning 1 is not
  taken; the quotient is \<open>- 1\<close>, and the score returned is 0.
\<close>

theorem C7_single_community_scores_zero:
  "calculateNMI one_community one_community ab_nodes = 0"
proof -
  have n: "length ab_nodes = 2" by (simp add: ab_nodes_def)
  have r: "rowTotal [[2]] 0 = 2" by (simp add: rowTotal_def)
  have c: "colTotal [[2]] 0 = 2" by (simp add: colTotal_def)
  have mi: "mi_cell [[2]] 2 0 0 0 = log2 (1 + eps)"
    by (simp add: mi_cell_def r c)
  have e: "entropy_step (real 2 / real 2) 0 = - log2 (1 + eps)"
    by (simp add: entropy_step_def)
  have ne: "- log2 (1 + eps) \<noteq> 0" using log2_eps_pos by simp
  have q: "(2 * log2 (1 + eps)) / (- log2 (1 + eps) + - log2 (1 + eps)) = - 1"
    using log2_eps_pos by (simp add: field_simps)
  show ?thesis
    unfolding calculateNMI_def Let_def one_community_labels n
    using mi e ne q
    by (simp add: one_community_table r c)
qed

section \<open>PageRank: the scores sum to one\<close>

lemma lower_update:
  assumes "lower b ranks" "b \<le> v"
  shows "lower b (AList.update k v ranks)"
  using assms by (induction ranks) (auto simp: lower_def)

lemma lower_getOr:
  assumes "lower b ranks" "0 \<le> b"
  shows "0 \<le> getOr 0 ranks k"
proof (cases "map_of ranks k")
  case None
  then show ?thesis by (simp add: getOr_def)
next
  case (Some v)
  then have "(k, v) \<in> set ranks" by (rule map_of_SomeD)
  then have "b \<le> v" using assms(1) by (auto simp: lower_def list_all_iff)
  then show ?thesis using Some assms(2) by (simp add: getOr_def)
qed

lemma danglingSum_nonneg:
  assumes "lower b ranks" "0 \<le> b"
  shows "0 \<le> danglingSum ns outDegrees ranks"
proof -
  have "0 \<le> acc \<Longrightarrow> 0 \<le> fold (\<lambda>nd acc. if getOr 0 outDegrees (id' nd) = 0
            then acc + getOr 0 ranks (id' nd) else acc) ns acc" for acc
  proof (induction ns arbitrary: acc)
    case Nil
    then show ?case by simp
  next
    case (Cons nd ns)
    have "0 \<le> acc + getOr 0 ranks (id' nd)"
      using Cons.prems lower_getOr[OF assms, of "id' nd"] by simp
    then show ?case using Cons.IH Cons.prems by simp
  qed
  then show ?thesis by (simp add: danglingSum_def)
qed

lemma rankSum_nonneg:
  assumes "lower b ranks" "0 \<le> b"
  shows "0 \<le> rankSum revAdj outDegrees ranks nd"
proof -
  have "0 \<le> acc \<Longrightarrow> 0 \<le> fold (\<lambda>neighbor acc.
             let neighborOutDegree = getOr 0 outDegrees neighbor in
             if neighborOutDegree > 0 then acc + getOr 0 ranks neighbor / real neighborOutDegree
             else acc) xs acc" for acc xs
  proof (induction xs arbitrary: acc)
    case Nil
    then show ?case by simp
  next
    case (Cons x xs)
    have "0 \<le> acc + getOr 0 ranks x / real (getOr 0 outDegrees x)"
      using Cons.prems lower_getOr[OF assms, of x] by simp
    then show ?case using Cons.IH Cons.prems by (simp add: Let_def)
  qed
  then show ?thesis by (simp add: rankSum_def)
qed

lemma pr_node_fold:
  assumes lo: "lower b ranks" and b: "0 \<le> b" and d: "0 \<le> dangling"
    and bn: "b \<le> (1 - damping) / real n"
  shows "lower b acc \<Longrightarrow> distinct (map fst acc @ map id' ns)
         \<Longrightarrow> fold (pr_node r n ranks dangling) ns (acc, diff) = (newRanks, diff')
         \<Longrightarrow> lower b newRanks \<and> map fst newRanks = map fst acc @ map id' ns"
proof (induction ns arbitrary: acc diff)
  case Nil
  then show ?case by simp
next
  case (Cons nd ns)
  define newRank where "newRank = (1 - damping) / real n
       + damping * (rankSum (gr_revAdj r) (gr_outDegrees r) ranks nd + dangling / real n)"
  have "0 \<le> rankSum (gr_revAdj r) (gr_outDegrees r) ranks nd + dangling / real n"
    using rankSum_nonneg[OF lo b] d by simp
  then have "0 \<le> damping * (rankSum (gr_revAdj r) (gr_outDegrees r) ranks nd + dangling / real n)"
    by (simp add: damping_def)
  then have nb: "b \<le> newRank" using bn by (simp add: newRank_def)
  have fresh: "id' nd \<notin> fst ` set acc" using Cons.prems(2) by auto
  have upd: "AList.update (id' nd) newRank acc = acc @ [(id' nd, newRank)]"
    using fresh by (rule update_fresh)
  obtain diff1 where step: "pr_node r n ranks dangling nd (acc, diff)
      = (acc @ [(id' nd, newRank)], diff1)"
    by (simp add: pr_node_def Let_def newRank_def[symmetric] upd)
  have l1: "lower b (acc @ [(id' nd, newRank)])"
    using Cons.prems(1) nb by (simp add: lower_def)
  have d1: "distinct (map fst (acc @ [(id' nd, newRank)]) @ map id' ns)"
    using Cons.prems(2) by auto
  have f1: "fold (pr_node r n ranks dangling) ns (acc @ [(id' nd, newRank)], diff1) = (newRanks, diff')"
    using Cons.prems(3) step by simp
  from Cons.IH[OF l1 d1 f1] show ?case by simp
qed

lemma pr_iteration_inv:
  assumes lo: "lower b ranks" and b: "0 \<le> b" and bn: "b \<le> (1 - damping) / real (length ns)"
    and dist: "distinct (map id' ns)"
    and it: "pr_iteration r ns ranks = (newRanks, diff)"
  shows "lower b newRanks \<and> map fst newRanks = map id' ns"
proof -
  have d: "0 \<le> danglingSum ns (gr_outDegrees r) ranks" using lo b by (rule danglingSum_nonneg)
  have l0: "lower b []" by (simp add: lower_def)
  have d0: "distinct (map fst ([]::(string \<times> real) list) @ map id' ns)" using dist by simp
  from pr_node_fold[OF lo b d bn l0 d0 it[unfolded pr_iteration_def]] show ?thesis by simp
qed

lemma pr_for_inv:
  assumes b: "0 \<le> b" and bn: "b \<le> (1 - damping) / real (length ns)"
    and dist: "distinct (map id' ns)"
  shows "lower b ranks \<Longrightarrow> map fst ranks = map id' ns
         \<Longrightarrow> lower b (pr_for left r ns ranks) \<and> map fst (pr_for left r ns ranks) = map id' ns"
proof (induction left arbitrary: ranks)
  case 0
  then show ?case by simp
next
  case (Suc left)
  obtain newRanks diff where it: "pr_iteration r ns ranks = (newRanks, diff)"
    by (cases "pr_iteration r ns ranks")
  from pr_iteration_inv[OF Suc.prems(1) b bn dist it]
  have l: "lower b newRanks" and k: "map fst newRanks = map id' ns" by simp_all
  show ?case
  proof (cases "diff < tolerance")
    case True
    then show ?thesis using it l k by simp
  next
    case False
    then show ?thesis using it Suc.IH[OF l k] by simp
  qed
qed

lemma initial_ranks:
  "distinct (map fst acc @ map id' ns) \<Longrightarrow>
   fold (\<lambda>nd. AList.update (id' nd) v) ns acc = acc @ map (\<lambda>nd. (id' nd, v)) ns"
proof (induction ns arbitrary: acc)
  case Nil
  then show ?case by simp
next
  case (Cons nd ns)
  have "id' nd \<notin> fst ` set acc" using Cons.prems by auto
  then have u: "AList.update (id' nd) v acc = acc @ [(id' nd, v)]" by (rule update_fresh)
  have "distinct (map fst (acc @ [(id' nd, v)]) @ map id' ns)" using Cons.prems by auto
  from Cons.IH[OF this] show ?case using u by simp
qed

lemma pr_ranks_lower:
  assumes ne: "nodes graphData \<noteq> []" and dist: "distinct (map id' (nodes graphData))"
  shows "lower ((1 - damping) / real (length (nodes graphData))) (pr_ranks graphData isDirected)
       \<and> map fst (pr_ranks graphData isDirected) = map id' (nodes graphData)"
proof -
  let ?ns = "nodes graphData"
  let ?n = "real (length ?ns)"
  let ?b = "(1 - damping) / ?n"
  have n: "0 < ?n" using ne by simp
  have b: "0 \<le> ?b" using n by (simp add: damping_def)
  have d0: "distinct (map fst ([]::(string \<times> real) list) @ map id' ?ns)" using dist by simp
  have r0: "fold (\<lambda>nd. AList.update (id' nd) (1 / ?n)) ?ns [] = map (\<lambda>nd. (id' nd, 1 / ?n)) ?ns"
    using initial_ranks[OF d0, of "1 / ?n"] by simp
  have "?b \<le> 1 / ?n" using n by (simp add: damping_def field_simps)
  then have l0: "lower ?b (map (\<lambda>nd. (id' nd, 1 / ?n)) ?ns)"
    by (simp add: lower_def list_all_iff)
  have k0: "map fst (map (\<lambda>nd. (id' nd, 1 / ?n)) ?ns) = map id' ?ns" by (simp add: comp_def)
  from pr_for_inv[OF b order_refl dist l0 k0, of pr_maxIterations
      "buildGraphRepresentation graphData isDirected"]
  show ?thesis by (simp add: pr_ranks_def Let_def r0)
qed

lemma lower_total:
  "lower b ranks \<Longrightarrow> b * real (length ranks) \<le> sum_list (map snd ranks)"
proof (induction ranks)
  case Nil
  then show ?case by simp
next
  case (Cons kv ranks)
  obtain k v where kv: "kv = (k, v)" by (cases kv)
  have "b \<le> v" "lower b ranks" using Cons.prems kv by (simp_all add: lower_def)
  then show ?case using Cons.IH kv by (simp add: algebra_simps)
qed

lemma fold_total: "fold (\<lambda>rank sum. sum + rank) xs (a::real) = a + sum_list xs"
  by (induction xs arbitrary: a) simp_all

lemma scores_total:
  "sum_list (map score (map (\<lambda>(nodeId', score'). \<lparr>nodeId = nodeId', score = score' / t\<rparr>) ranks))
     = sum_list (map snd ranks) / t"
  by (induction ranks) (auto simp: add_divide_distrib)

lemma scores_ids:
  "map nodeId (map (\<lambda>(nodeId', score'). \<lparr>nodeId = nodeId', score = score' / t\<rparr>) ranks)
     = map fst ranks"
  by (induction ranks) auto

text \<open>
  Claim C3. On a graph with at least one node and distinct identifiers, every rank the
  iteration leaves is at least \<open>(1 - damping) / n\<close>, so the total rank is above
  \<open>1e-9\<close> and the result is not empty: it lists the nodes in their order, and its scores
  sum to 1, in exact arithmetic.
\<close>

theorem C3_pagerank_sums_to_one:
  assumes ne: "nodes graphData \<noteq> []" and dist: "distinct (map id' (nodes graphData))"
  shows "list_all (\<lambda>(k, v). (1 - damping) / real (length (nodes graphData)) \<le> v)
           (pr_ranks graphData isDirected)
       \<and> fold (\<lambda>rank sum. sum + rank) (map snd (pr_ranks graphData isDirected)) 0 > 1 / 10 ^ 9
       \<and> map nodeId (calculatePageRank graphData isDirected) = map id' (nodes graphData)
       \<and> sum_list (map score (calculatePageRank graphData isDirected)) = 1"
proof -
  let ?ranks = "pr_ranks graphData isDirected"
  let ?n = "real (length (nodes graphData))"
  let ?t = "fold (\<lambda>rank sum. sum + rank) (map snd ?ranks) 0"
  from pr_ranks_lower[OF ne dist, of isDirected]
  have lo: "lower ((1 - damping) / ?n) ?ranks" and k: "map fst ?ranks = map id' (nodes graphData)"
    by simp_all
  have "length (map fst ?ranks) = length (map id' (nodes graphData))" by (simp only: k)
  then have len: "length ?ranks = length (nodes graphData)" by simp
  have n: "0 < ?n" using ne by simp
  have t: "?t = sum_list (map snd ?ranks)" by (simp add: fold_total)
  have "(1 - damping) / ?n * ?n \<le> sum_list (map snd ?ranks)"
    using lower_total[OF lo] len by simp
  then have "1 - damping \<le> ?t" using n t by simp
  then have big: "?t > 1 / 10 ^ 9" by (simp add: damping_def)
  then have pos: "?t \<noteq> 0" by auto
  have res: "calculatePageRank graphData isDirected
      = map (\<lambda>(nodeId', score'). \<lparr>nodeId = nodeId', score = score' / ?t\<rparr>) ?ranks"
    using ne big by (simp add: calculatePageRank_def Let_def)
  have s: "sum_list (map score (calculatePageRank graphData isDirected)) = 1"
    unfolding res scores_total using t pos by simp
  have i: "map nodeId (calculatePageRank graphData isDirected) = map id' (nodes graphData)"
    unfolding res scores_ids using k by simp
  show ?thesis using lo[unfolded lower_def] big i s by blast
qed

text \<open>The directed path \<open>a \<rightarrow> b \<rightarrow> c\<close>.\<close>

theorem C3_pagerank_sums_to_one_witness:
  "nodes triangle \<noteq> [] \<and> distinct (map id' (nodes triangle))
   \<and> list_all (\<lambda>(k, v). (1 - damping) / real (length (nodes triangle)) \<le> v)
           (pr_ranks triangle True)
   \<and> fold (\<lambda>rank sum. sum + rank) (map snd (pr_ranks triangle True)) 0 > 1 / 10 ^ 9
   \<and> map nodeId (calculatePageRank triangle True) = map id' (nodes triangle)
   \<and> sum_list (map score (calculatePageRank triangle True)) = 1"
proof -
  have h: "nodes triangle \<noteq> []" "distinct (map id' (nodes triangle))"
    by (simp_all add: triangle_def)
  show ?thesis using C3_pagerank_sums_to_one[OF h, of True] h by blast
qed

section \<open>An algorithm selector outside the enumeration\<close>

text \<open>
  Claim C10, as the code has it. With a selector that is no member of its enumeration, the
  worker posts an error message naming the selector; link prediction throws when the graph
  has at least two nodes and returns the empty list when it has fewer, the test on the number
  of nodes coming first; \<open>calculateCentrality\<close> throws nothing and returns the empty list.
\<close>

theorem C10_unknown_selector:
  "onmessage rnd graphData (Other s) params = Some (ERROR (UnknownAlgorithm s))
   \<and> calculateLinkPrediction graphData (Other s)
       = (if length (nodes graphData) < 2 then Inr [] else Inl (UnknownLinkPrediction s))
   \<and> calculateCentrality graphData (Other s) isDirected = Scores []"
  by (simp add: onmessage_def calculateLinkPrediction_def calculateCentrality_def Let_def)

text \<open>
  A selector that is not in the enumeration, on the path \<open>a \<rightarrow> b \<rightarrow> c\<close>: the centrality
  dispatcher returns a normal, empty result; so does link prediction on a single node.
\<close>

theorem C10_unknown_selector_returns_empty:
  "calculateCentrality triangle (Other ''EIGENVECTOR'') True = Scores []
   \<and> calculateLinkPrediction one_node (Other ''KATZ'') = Inr []"
  by (simp add: calculateCentrality_def calculateLinkPrediction_def one_node_def)

section \<open>The LFR generator at the two ends of the mixing parameter\<close>































end
